theory Spec2Isabelle
  imports Complex_Main "HOL-Library.Word"
begin

section \<open>The active-set QP solver of gtsam\_unstable/linear/QPSolver.cpp\<close>

text \<open>
  The development embeds the functions of \<^verbatim>\<open>QPSolver.cpp\<close>:
  \<^verbatim>\<open>solveWithCurrentWorkingSet\<close>, \<^verbatim>\<open>identifyLeavingConstraint\<close>,
  \<^verbatim>\<open>computeStepSize\<close>, \<^verbatim>\<open>iterate\<close>, \<^verbatim>\<open>identifyActiveConstraints\<close> and
  \<^verbatim>\<open>optimize\<close>.

  Conventions of the model.
  \<^item> A C++ \<^verbatim>\<open>double\<close> is a \<^typ>\<open>real\<close>: arithmetic is exact, there is no rounding, no
    NaN and no infinity. Comparisons, and therefore the control flow, are those of the code.
  \<^item> A \<^verbatim>\<open>LinearInequality::shared_ptr\<close> is an address into a store of factor objects; an
    \<^verbatim>\<open>InequalityFactorGraph\<close> is the sequence of addresses it holds. Copying a graph copies
    the addresses, not the objects; \<^verbatim>\<open>activate()\<close> and \<^verbatim>\<open>inactivate()\<close> write the store.
  \<^item> A C++ exception is a value of type \<open>exn\<close> on the left of a sum.
  \<^item> \<^verbatim>\<open>size_t\<close> indices are natural numbers; the assignment of a \<^verbatim>\<open>size_t\<close> to an
    \<^verbatim>\<open>int\<close> keeps the low 32 bits, read as a signed number.
\<close>

subsection \<open>Exceptions\<close>

datatype exn =
  InfeasibleInitialValues  \<comment> \<open>thrown by \<^verbatim>\<open>identifyActiveConstraints\<close>\<close>
  | OutOfRange             \<comment> \<open>\<^verbatim>\<open>std::out_of_range\<close> of \<^verbatim>\<open>at()\<close>\<close>
  | InvalidArgument        \<comment> \<open>\<^verbatim>\<open>std::invalid_argument\<close> of the \<^verbatim>\<open>VectorValues\<close> operators\<close>
  | AssertionFailure       \<comment> \<open>a failed size assertion of the dense vector library\<close>

subsection \<open>Vectors and VectorValues\<close>

type_synonym Key = nat
type_synonym Vector = "real list"

text \<open>
  Modelled from the spec: \<^verbatim>\<open>VectorValues\<close> is declared in a header that is not among the source files. The spec
  describes it as "one vector per variable", keyed by variable identifiers. It is the
  sequence of (key, vector) pairs of the underlying ordered map. \<^verbatim>\<open>exists\<close> and \<^verbatim>\<open>size\<close> look a
  key up and count the entries; \<^verbatim>\<open>at\<close> of a missing key throws \<^verbatim>\<open>out_of_range\<close>; the sum and
  the difference of two values of different structure (keys or vector sizes) throw
  \<^verbatim>\<open>invalid_argument\<close>; \<^verbatim>\<open>equals\<close> with a tolerance compares the keys and accepts, in every
  component, a difference of at most the tolerance.
\<close>

type_synonym VectorValues = "(Key \<times> Vector) list"

definition vvExists :: "VectorValues \<Rightarrow> Key \<Rightarrow> bool" where
  "vvExists vv k = (map_of vv k \<noteq> None)"

definition vvSize :: "VectorValues \<Rightarrow> nat" where
  "vvSize vv = length vv"

definition vvAt :: "VectorValues \<Rightarrow> Key \<Rightarrow> exn + Vector" where
  "vvAt vv k = (case map_of vv k of None \<Rightarrow> Inl OutOfRange | Some v \<Rightarrow> Inr v)"

fun hasSameStructure :: "VectorValues \<Rightarrow> VectorValues \<Rightarrow> bool" where
  "hasSameStructure [] [] = True"
| "hasSameStructure ((k, u) # x) ((k', v) # y) =
     (k = k' \<and> length u = length v \<and> hasSameStructure x y)"
| "hasSameStructure _ _ = False"

definition vvCombine :: "(real \<Rightarrow> real \<Rightarrow> real) \<Rightarrow> VectorValues \<Rightarrow> VectorValues \<Rightarrow> VectorValues" where
  "vvCombine f x y = map2 (\<lambda>kx ky. (fst kx, map2 f (snd kx) (snd ky))) x y"

definition vvPlus :: "VectorValues \<Rightarrow> VectorValues \<Rightarrow> exn + VectorValues" where
  "vvPlus x y = (if hasSameStructure x y then Inr (vvCombine (+) x y) else Inl InvalidArgument)"

definition vvMinus :: "VectorValues \<Rightarrow> VectorValues \<Rightarrow> exn + VectorValues" where
  "vvMinus x y = (if hasSameStructure x y then Inr (vvCombine (-) x y) else Inl InvalidArgument)"

definition vvScale :: "real \<Rightarrow> VectorValues \<Rightarrow> VectorValues" where
  "vvScale c x = map (\<lambda>kv. (fst kv, map ((*) c) (snd kv))) x"

definition equal_with_abs_tol :: "Vector \<Rightarrow> Vector \<Rightarrow> real \<Rightarrow> bool" where
  "equal_with_abs_tol u v tol = list_all2 (\<lambda>a c. \<not> \<bar>a - c\<bar> > tol) u v"

definition vvEquals :: "VectorValues \<Rightarrow> VectorValues \<Rightarrow> real \<Rightarrow> bool" where
  "vvEquals x y tol =
     list_all2 (\<lambda>kx ky. fst kx = fst ky \<and> equal_with_abs_tol (snd kx) (snd ky) tol) x y"

subsection \<open>Inequality factors and the store\<close>

text \<open>
  Modelled from the spec: \<^verbatim>\<open>LinearInequality\<close> is declared in a header that is not among the source files. The
  spec gives an inequality term as coefficients \<open>a\<close>, bound \<open>b\<close>, dual key and active flag,
  standing for \<open>a\<^sup>T x \<le> b\<close>. The row \<open>a\<close> is one coefficient block per variable.
\<close>

record LinearInequality =
  row :: "(Key \<times> Vector) list"
  getb :: real
  dualKey :: Key
  active :: bool

text \<open>
  Modelled from the spec: \<^verbatim>\<open>dotProductRow\<close> ("dot-product of a constraint row with a
  candidate vector") sums, over the variables of the row, the dot product of the coefficient
  block with the vector stored at that variable. A variable missing from the candidate is
  the \<^verbatim>\<open>out_of_range\<close> of \<^verbatim>\<open>at()\<close>; blocks of different sizes fail the size assertion.
\<close>

fun rowDot :: "(Key \<times> Vector) list \<Rightarrow> VectorValues \<Rightarrow> exn + real" where
  "rowDot [] p = Inr 0"
| "rowDot ((k, aj) # ts) p =
     (case vvAt p k of
        Inl e \<Rightarrow> Inl e
      | Inr v \<Rightarrow>
          if length aj \<noteq> length v then Inl AssertionFailure
          else (case rowDot ts p of
                  Inl e \<Rightarrow> Inl e
                | Inr r \<Rightarrow> Inr (sum_list (map2 (*) aj v) + r)))"

definition dotProductRow :: "LinearInequality \<Rightarrow> VectorValues \<Rightarrow> exn + real" where
  "dotProductRow f p = rowDot (row f) p"

text \<open>
  Modelled from the spec: \<^verbatim>\<open>error\<close> is the constraint's violation \<open>a\<^sup>T x - b\<close> at a point.
\<close>

definition error :: "LinearInequality \<Rightarrow> VectorValues \<Rightarrow> exn + real" where
  "error f x = (case dotProductRow f x of Inl e \<Rightarrow> Inl e | Inr aTx \<Rightarrow> Inr (aTx - getb f))"

text \<open>
  Modelled from the spec: \<^verbatim>\<open>InequalityFactorGraph\<close> is declared in a header that is not among the source files. The
  source reads its entries as shared pointers (\<^verbatim>\<open>workingSet.at(factorIx)\<close> is bound to a
  \<^verbatim>\<open>LinearInequality::shared_ptr\<close>, and \<^verbatim>\<open>push_back\<close> receives the pointer made by
  \<^verbatim>\<open>new LinearInequality(*factor)\<close>), and the spec says that the source mutates the active
  flags through shared references. A graph is therefore a sequence of addresses into a
  store of factor objects; \<^verbatim>\<open>at\<close> beyond the end throws \<^verbatim>\<open>out_of_range\<close>.
\<close>

type_synonym addr = nat
type_synonym store = "LinearInequality list"
type_synonym InequalityFactorGraph = "addr list"

definition setActive :: "store \<Rightarrow> addr \<Rightarrow> bool \<Rightarrow> store" where
  "setActive h a flag = h[a := (h ! a)\<lparr>active := flag\<rparr>]"

definition wsAt :: "InequalityFactorGraph \<Rightarrow> nat \<Rightarrow> exn + addr" where
  "wsAt ws i = (if i < length ws then Inr (ws ! i) else Inl OutOfRange)"

definition factors :: "store \<Rightarrow> InequalityFactorGraph \<Rightarrow> LinearInequality list" where
  "factors h ws = map ((!) h) ws"

definition toInt :: "nat \<Rightarrow> int" where
  "toInt n = sint (word_of_nat n :: 32 word)"

definition tol7 :: real where
  "tol7 = 1 / 10 ^ 7"

subsection \<open>The solver and its state\<close>

text \<open>
  Modelled from the spec: the cost and equality graphs, the dual-factor collaborators and
  \<^verbatim>\<open>GaussianFactorGraph::optimize\<close> are not among the source files; the spec treats the
  linear solve as a black box. \<open>optimizeWorkingGraph S fs\<close> is the solution of the base
  graph extended by the factors \<open>fs\<close>; \<open>optimizeDualGraph S fs delta\<close> is the solution
  of the dual graph built from the working set with factor objects \<open>fs\<close> at the point
  \<open>delta\<close>. \<^verbatim>\<open>QPState\<close> is declared in a missing header as well; the spec gives the
  solver state as values, duals, working set, converged flag and iteration count, the order
  of the constructor calls in the source.
\<close>

record QPSolver =
  inequalities :: "LinearInequality list"
  optimizeWorkingGraph :: "LinearInequality list \<Rightarrow> VectorValues"
  optimizeDualGraph :: "LinearInequality list \<Rightarrow> VectorValues \<Rightarrow> VectorValues"

record QPState =
  "values" :: VectorValues
  duals :: VectorValues
  workingSet :: InequalityFactorGraph
  converged :: bool
  iterations :: nat

definition solveWithCurrentWorkingSet :: "QPSolver \<Rightarrow> store \<Rightarrow> InequalityFactorGraph \<Rightarrow> VectorValues" where
  "solveWithCurrentWorkingSet S h ws = optimizeWorkingGraph S (filter active (factors h ws))"

definition buildDualGraphOptimize :: "QPSolver \<Rightarrow> store \<Rightarrow> InequalityFactorGraph \<Rightarrow> VectorValues \<Rightarrow> VectorValues" where
  "buildDualGraphOptimize S h ws delta = optimizeDualGraph S (factors h ws) delta"

subsection \<open>identifyLeavingConstraint\<close>

fun leavingLoop :: "store \<Rightarrow> VectorValues \<Rightarrow> InequalityFactorGraph \<Rightarrow> nat \<Rightarrow> int \<Rightarrow> real \<Rightarrow> exn + int" where
  "leavingLoop h lambdas [] factorIx worstFactorIx maxLambda = Inr worstFactorIx"
| "leavingLoop h lambdas (a # ws) factorIx worstFactorIx maxLambda =
     (if active (h ! a) then
        (case vvAt lambdas (dualKey (h ! a)) of
           Inl e \<Rightarrow> Inl e
         | Inr [] \<Rightarrow> Inl AssertionFailure
         | Inr (lambda # _) \<Rightarrow>
             if lambda > maxLambda
             then leavingLoop h lambdas ws (Suc factorIx) (toInt factorIx) lambda
             else leavingLoop h lambdas ws (Suc factorIx) worstFactorIx maxLambda)
      else leavingLoop h lambdas ws (Suc factorIx) worstFactorIx maxLambda)"

definition identifyLeavingConstraint :: "store \<Rightarrow> InequalityFactorGraph \<Rightarrow> VectorValues \<Rightarrow> exn + int" where
  "identifyLeavingConstraint h workingSet' lambdas = leavingLoop h lambdas workingSet' 0 (- 1) 0"

subsection \<open>computeStepSize\<close>

fun stepLoop :: "store \<Rightarrow> VectorValues \<Rightarrow> VectorValues \<Rightarrow> InequalityFactorGraph \<Rightarrow> nat \<Rightarrow> real \<Rightarrow> int \<Rightarrow> exn + real \<times> int" where
  "stepLoop h xk p [] factorIx minAlpha closestFactorIx = Inr (minAlpha, closestFactorIx)"
| "stepLoop h xk p (a # ws) factorIx minAlpha closestFactorIx =
     (if \<not> active (h ! a) then
        (case dotProductRow (h ! a) p of
           Inl e \<Rightarrow> Inl e
         | Inr aTp \<Rightarrow>
             if aTp \<le> 0 then stepLoop h xk p ws (Suc factorIx) minAlpha closestFactorIx
             else
               (case dotProductRow (h ! a) xk of
                  Inl e \<Rightarrow> Inl e
                | Inr aTx \<Rightarrow>
                    if (getb (h ! a) - aTx) / aTp < minAlpha
                    then stepLoop h xk p ws (Suc factorIx) ((getb (h ! a) - aTx) / aTp) (toInt factorIx)
                    else stepLoop h xk p ws (Suc factorIx) minAlpha closestFactorIx))
      else stepLoop h xk p ws (Suc factorIx) minAlpha closestFactorIx)"

definition computeStepSize :: "store \<Rightarrow> InequalityFactorGraph \<Rightarrow> VectorValues \<Rightarrow> VectorValues \<Rightarrow> exn + real \<times> int" where
  "computeStepSize h workingSet' xk p = stepLoop h xk p workingSet' 0 1 (- 1)"

subsection \<open>iterate\<close>

definition iterate :: "QPSolver \<Rightarrow> store \<Rightarrow> QPState \<Rightarrow> exn + store \<times> QPState" where
  "iterate S h state =
     (let newValues = solveWithCurrentWorkingSet S h (workingSet state) in
      if vvEquals newValues (values state) tol7 then
        (let duals' = buildDualGraphOptimize S h (workingSet state) newValues in
         case identifyLeavingConstraint h (workingSet state) duals' of
           Inl e \<Rightarrow> Inl e
         | Inr leavingFactor \<Rightarrow>
             if leavingFactor < 0 then
               Inr (h, \<lparr>values = newValues, duals = duals', workingSet = workingSet state,
                        converged = True, iterations = iterations state + 1\<rparr>)
             else
               (case wsAt (workingSet state) (nat leavingFactor) of
                  Inl e \<Rightarrow> Inl e
                | Inr a \<Rightarrow>
                    Inr (setActive h a False,
                         \<lparr>values = newValues, duals = duals', workingSet = workingSet state,
                          converged = False, iterations = iterations state + 1\<rparr>)))
      else
        (case vvMinus newValues (values state) of
           Inl e \<Rightarrow> Inl e
         | Inr p \<Rightarrow>
             (case computeStepSize h (workingSet state) (values state) p of
                Inl e \<Rightarrow> Inl e
              | Inr (alpha, factorIx) \<Rightarrow>
                  (case (if factorIx \<ge> 0
                         then (case wsAt (workingSet state) (nat factorIx) of
                                 Inl e \<Rightarrow> Inl e
                               | Inr a \<Rightarrow> Inr (setActive h a True))
                         else Inr h) of
                     Inl e \<Rightarrow> Inl e
                   | Inr h' \<Rightarrow>
                       (case vvPlus (values state) (vvScale alpha p) of
                          Inl e \<Rightarrow> Inl e
                        | Inr stepped \<Rightarrow>
                            Inr (h', \<lparr>values = stepped, duals = duals state,
                                      workingSet = workingSet state,
                                      converged = False, iterations = iterations state + 1\<rparr>))))))"

subsection \<open>identifyActiveConstraints\<close>

fun activeLoop :: "store \<Rightarrow> InequalityFactorGraph \<Rightarrow> LinearInequality list \<Rightarrow> VectorValues \<Rightarrow> VectorValues \<Rightarrow> bool \<Rightarrow> exn + store \<times> InequalityFactorGraph" where
  "activeLoop h ws [] initialValues duals' useWarmStart = Inr (h, ws)"
| "activeLoop h ws (factor # rest) initialValues duals' useWarmStart =
     (if useWarmStart = True \<and> vvExists duals' (dualKey factor) then
        activeLoop (h @ [factor\<lparr>active := True\<rparr>]) (ws @ [length h]) rest initialValues duals' useWarmStart
      else if useWarmStart = True \<and> vvSize duals' > 0 then
        activeLoop (h @ [factor\<lparr>active := False\<rparr>]) (ws @ [length h]) rest initialValues duals' useWarmStart
      else
        (case error factor initialValues of
           Inl e \<Rightarrow> Inl e
         | Inr err \<Rightarrow>
             if err > 0 then Inl InfeasibleInitialValues
             else if \<bar>err\<bar> < tol7 then
               activeLoop (h @ [factor\<lparr>active := True\<rparr>]) (ws @ [length h]) rest initialValues duals' useWarmStart
             else
               activeLoop (h @ [factor\<lparr>active := False\<rparr>]) (ws @ [length h]) rest initialValues duals' useWarmStart))"

definition identifyActiveConstraints :: "store \<Rightarrow> LinearInequality list \<Rightarrow> VectorValues \<Rightarrow> VectorValues \<Rightarrow> bool \<Rightarrow> exn + store \<times> InequalityFactorGraph" where
  "identifyActiveConstraints h inequalities' initialValues duals' useWarmStart =
     activeLoop h [] inequalities' initialValues duals' useWarmStart"

subsection \<open>optimize\<close>

partial_function (option) optimizeLoop :: "QPSolver \<Rightarrow> store \<Rightarrow> QPState \<Rightarrow> (exn + store \<times> QPState) option" where
  "optimizeLoop S h state =
     (if \<not> converged state then
        (case iterate S h state of
           Inl e \<Rightarrow> Some (Inl e)
         | Inr hs \<Rightarrow> optimizeLoop S (fst hs) (snd hs))
      else Some (Inr (h, state)))"

definition optimizeState :: "QPSolver \<Rightarrow> store \<Rightarrow> VectorValues \<Rightarrow> VectorValues \<Rightarrow> bool \<Rightarrow> (exn + store \<times> QPState) option" where
  "optimizeState S h initialValues duals' useWarmStart =
     (case identifyActiveConstraints h (inequalities S) initialValues duals' useWarmStart of
        Inl e \<Rightarrow> Some (Inl e)
      | Inr (h', workingSet') \<Rightarrow>
          optimizeLoop S h' \<lparr>values = initialValues, duals = duals', workingSet = workingSet',
                             converged = False, iterations = 0\<rparr>)"

definition optimize :: "QPSolver \<Rightarrow> store \<Rightarrow> VectorValues \<Rightarrow> VectorValues \<Rightarrow> bool \<Rightarrow> (exn + VectorValues \<times> VectorValues) option" where
  "optimize S h initialValues duals' useWarmStart =
     map_option (map_sum id (\<lambda>hs. (values (snd hs), duals (snd hs))))
       (optimizeState S h initialValues duals' useWarmStart)"

section \<open>Specification predicates\<close>

text \<open>
  The multiplier that \<^verbatim>\<open>identifyLeavingConstraint\<close> reads for a factor: the first component
  of the dual vector at the factor's dual key. \<open>dualDefined\<close> says that this component exists.
\<close>

definition lambdaOf :: "VectorValues \<Rightarrow> LinearInequality \<Rightarrow> real" where
  "lambdaOf lambdas f = (case map_of lambdas (dualKey f) of Some (l # _) \<Rightarrow> l | _ \<Rightarrow> 0)"

definition dualDefined :: "VectorValues \<Rightarrow> LinearInequality \<Rightarrow> bool" where
  "dualDefined lambdas f = (case map_of lambdas (dualKey f) of Some (l # _) \<Rightarrow> True | _ \<Rightarrow> False)"

text \<open>
  What the scan of \<^verbatim>\<open>identifyLeavingConstraint\<close> has established after the entries \<open>ws\<close>,
  started at index \<open>n\<close> with the best index \<open>w\<close> and the best multiplier \<open>m\<close> so far.
\<close>

definition leavingPost :: "store \<Rightarrow> VectorValues \<Rightarrow> InequalityFactorGraph \<Rightarrow> nat \<Rightarrow> int \<Rightarrow> real \<Rightarrow> int \<Rightarrow> bool" where
  "leavingPost h lambdas ws n w m r =
     (if \<forall>a\<in>set ws. active (h ! a) \<longrightarrow> lambdaOf lambdas (h ! a) \<le> m then r = w
      else \<exists>i<length ws. r = toInt (n + i) \<and> active (h ! (ws ! i))
             \<and> m < lambdaOf lambdas (h ! (ws ! i))
             \<and> (\<forall>j<length ws. active (h ! (ws ! j)) \<longrightarrow>
                   lambdaOf lambdas (h ! (ws ! j)) \<le> lambdaOf lambdas (h ! (ws ! i)))
             \<and> (\<forall>j<i. active (h ! (ws ! j)) \<longrightarrow>
                   lambdaOf lambdas (h ! (ws ! j)) < lambdaOf lambdas (h ! (ws ! i))))"

text \<open>
  \<open>rowOk f x\<close>: the row product of \<open>f\<close> with \<open>x\<close> is defined (no exception); \<open>aT f x\<close> is
  its value \<open>a\<^sup>T x\<close>. \<open>ratio f xk p\<close> is the candidate step length \<open>(b - a\<^sup>T xk) / (a\<^sup>T p)\<close>, and
  \<open>stepPost\<close> is what the scan of \<^verbatim>\<open>computeStepSize\<close> has established after the entries
  \<open>ws\<close>, started at index \<open>n\<close> with the minimum \<open>m\<close> and the index \<open>c\<close> so far.
\<close>

definition rowOk :: "LinearInequality \<Rightarrow> VectorValues \<Rightarrow> bool" where
  "rowOk f x = (\<not> isl (dotProductRow f x))"

definition aT :: "LinearInequality \<Rightarrow> VectorValues \<Rightarrow> real" where
  "aT f x = (case dotProductRow f x of Inl _ \<Rightarrow> 0 | Inr r \<Rightarrow> r)"

definition ratio :: "LinearInequality \<Rightarrow> VectorValues \<Rightarrow> VectorValues \<Rightarrow> real" where
  "ratio f xk p = (getb f - aT f xk) / aT f p"

definition stepPost :: "store \<Rightarrow> VectorValues \<Rightarrow> VectorValues \<Rightarrow> InequalityFactorGraph \<Rightarrow> nat \<Rightarrow> real \<Rightarrow> int \<Rightarrow> real \<Rightarrow> int \<Rightarrow> bool" where
  "stepPost h xk p ws n m c alpha ix =
     (alpha \<le> m
      \<and> (\<forall>a\<in>set ws. \<not> active (h ! a) \<and> 0 < aT (h ! a) p \<longrightarrow> alpha \<le> ratio (h ! a) xk p)
      \<and> ((alpha = m \<and> ix = c)
          \<or> (\<exists>i<length ws. ix = toInt (n + i) \<and> \<not> active (h ! (ws ! i))
                \<and> 0 < aT (h ! (ws ! i)) p \<and> alpha = ratio (h ! (ws ! i)) xk p \<and> alpha < m)))"

text \<open>
  The working set that \<^verbatim>\<open>identifyActiveConstraints\<close> builds holds copies of the inequalities
  with new flags: \<open>coldFlag\<close> in a cold start, \<open>warmFlag\<close> in a warm start with duals.
\<close>

definition copies :: "(LinearInequality \<Rightarrow> bool) \<Rightarrow> LinearInequality list \<Rightarrow> LinearInequality list" where
  "copies flag fs = map (\<lambda>f. f\<lparr>active := flag f\<rparr>) fs"

definition coldFlag :: "VectorValues \<Rightarrow> LinearInequality \<Rightarrow> bool" where
  "coldFlag x f = (\<bar>aT f x - getb f\<bar> < tol7)"

definition warmFlag :: "VectorValues \<Rightarrow> LinearInequality \<Rightarrow> bool" where
  "warmFlag d f = vvExists d (dualKey f)"

text \<open>
  Feasibility of a point for a working set. \<open>satisfiesInequalities\<close>: every inequality
  holds, \<open>a\<^sup>T x \<le> b\<close>. \<open>activeExact\<close>: every active inequality holds with equality.
  \<open>solvedExact\<close> is the guarantee of the working-graph solve (active constraints hold
  exactly at its result); \<open>feasibleWithin\<close> relaxes every bound by \<open>eps\<close> times the 1-norm
  of the row.
\<close>

definition satisfiesInequalities :: "store \<Rightarrow> InequalityFactorGraph \<Rightarrow> VectorValues \<Rightarrow> bool" where
  "satisfiesInequalities h ws x =
     list_all (\<lambda>a. case dotProductRow (h ! a) x of
                      Inl _ \<Rightarrow> False
                    | Inr aTx \<Rightarrow> aTx \<le> getb (h ! a)) ws"

definition activeExact :: "store \<Rightarrow> InequalityFactorGraph \<Rightarrow> VectorValues \<Rightarrow> bool" where
  "activeExact h ws x =
     list_all (\<lambda>a. active (h ! a) \<longrightarrow> dotProductRow (h ! a) x = Inr (getb (h ! a))) ws"

definition solvedExact :: "store \<Rightarrow> InequalityFactorGraph \<Rightarrow> VectorValues \<Rightarrow> bool" where
  "solvedExact h ws x =
     list_all (\<lambda>a. rowOk (h ! a) x \<and> (active (h ! a) \<longrightarrow> aT (h ! a) x = getb (h ! a))) ws"

fun rowNorm1 :: "(Key \<times> Vector) list \<Rightarrow> real" where
  "rowNorm1 [] = 0"
| "rowNorm1 ((k, aj) # ts) = sum_list (map abs aj) + rowNorm1 ts"

definition feasibleWithin :: "store \<Rightarrow> InequalityFactorGraph \<Rightarrow> VectorValues \<Rightarrow> real \<Rightarrow> bool" where
  "feasibleWithin h ws x eps =
     list_all (\<lambda>a. case dotProductRow (h ! a) x of
                      Inl _ \<Rightarrow> False
                    | Inr aTx \<Rightarrow> aTx \<le> getb (h ! a) + eps * rowNorm1 (row (h ! a))) ws"

text \<open>
  \<open>kktState\<close>: the values are the solve of the state's own working set, the duals are the dual
  solve at these values, and no constraint leaves. \<open>restartRebuilds\<close>: a restart from the
  state's values and duals rebuilds the state's active set. Duals that are not empty hold an
  entry exactly at the dual keys of the active constraints; with empty duals, where the
  restart is a cold start, every violation at the values is at most \<open>- 10\<^sup>-\<^sup>7\<close>.
\<close>

definition unflag :: "LinearInequality \<Rightarrow> LinearInequality" where
  "unflag f = f\<lparr>active := False\<rparr>"

definition kktState :: "QPSolver \<Rightarrow> store \<Rightarrow> QPState \<Rightarrow> bool" where
  "kktState S h s =
     (values s = solveWithCurrentWorkingSet S h (workingSet s)
      \<and> duals s = buildDualGraphOptimize S h (workingSet s) (values s)
      \<and> (case identifyLeavingConstraint h (workingSet s) (duals s) of
            Inl _ \<Rightarrow> False
          | Inr l \<Rightarrow> l < 0))"

definition restartRebuilds :: "store \<Rightarrow> QPState \<Rightarrow> bool" where
  "restartRebuilds h s =
     (if duals s \<noteq> []
      then list_all (\<lambda>f. vvExists (duals s) (dualKey f) = active f) (factors h (workingSet s))
      else list_all (\<lambda>f. case error f (values s) of
                             Inl _ \<Rightarrow> False
                           | Inr v \<Rightarrow> v \<le> - tol7) (factors h (workingSet s)))"

text \<open>
  \<open>stepRun S h0 s0 h s\<close>: the loop of \<^verbatim>\<open>optimize\<close>, started in store \<open>h0\<close> and state \<open>s0\<close>,
  reaches store \<open>h\<close> and state \<open>s\<close> by iterations that each took a step, from a solve at which
  the active constraints hold exactly.
\<close>

inductive stepRun :: "QPSolver \<Rightarrow> store \<Rightarrow> QPState \<Rightarrow> store \<Rightarrow> QPState \<Rightarrow> bool"
  for S :: QPSolver and h0 :: store and s0 :: QPState where
  start: "stepRun S h0 s0 h0 s0"
| step: "stepRun S h0 s0 h s \<Longrightarrow> \<not> converged s \<Longrightarrow>
         solvedExact h (workingSet s) (solveWithCurrentWorkingSet S h (workingSet s)) \<Longrightarrow>
         \<not> vvEquals (solveWithCurrentWorkingSet S h (workingSet s)) (values s) tol7 \<Longrightarrow>
         iterate S h s = Inr (h', s') \<Longrightarrow>
         stepRun S h0 s0 h' s'"

code_pred stepRun .

section \<open>Example inputs\<close>

definition exFactor :: "real \<Rightarrow> real \<Rightarrow> Key \<Rightarrow> bool \<Rightarrow> LinearInequality" where
  "exFactor a bound dk flag = \<lparr>row = [(0, [a])], getb = bound, dualKey = dk, active = flag\<rparr>"

definition exStore4 :: store where
  "exStore4 = [exFactor 1 5 10 True, exFactor 1 6 11 False, exFactor 1 7 12 True, exFactor 1 8 13 True]"

definition exLambdas :: VectorValues where
  "exLambdas = [(10, [2]), (11, [9]), (12, [3]), (13, [3])]"

definition exStore1 :: "real \<Rightarrow> real \<Rightarrow> bool \<Rightarrow> store" where
  "exStore1 a bound flag = [exFactor a bound 2 flag]"

text \<open>
  Modelled from the spec: a solver for the one-variable problem "minimise
  \<open>(x - c)\<^sup>2 / 2\<close> subject to \<open>a x \<le> bound\<close>" (variable key \<open>0\<close>, dual key \<open>2\<close>, \<open>a \<noteq> 0\<close>).
  The working-graph solve returns the exact minimiser: \<open>c\<close> when no inequality is active,
  \<open>bound / a\<close> when the inequality is active. The dual graph is empty when no inequality is
  active; otherwise its solution is the multiplier \<open>\<lambda>\<close> with \<open>a \<lambda> = x - c\<close>, the gradient of
  the cost at the point.
\<close>

definition exSolver :: "real \<Rightarrow> real \<Rightarrow> real \<Rightarrow> QPSolver" where
  "exSolver c a bound =
     \<lparr>inequalities = [exFactor a bound 2 False],
      optimizeWorkingGraph = (\<lambda>fs. if fs = [] then [(0, [c])] else [(0, [bound / a])]),
      optimizeDualGraph = (\<lambda>fs delta.
         if filter active fs = [] then []
         else (case delta of (k, x # xs) # rest \<Rightarrow> [(2, [(x - c) / a])] | _ \<Rightarrow> []))\<rparr>"

definition exState :: "real \<Rightarrow> InequalityFactorGraph \<Rightarrow> QPState" where
  "exState x ws = \<lparr>values = [(0, [x])], duals = [], workingSet = ws, converged = False, iterations = 0\<rparr>"

text \<open>
  Modelled from the spec: a solver for the two-variable problem "minimise
  \<open>((x - 10)\<^sup>2 + (y - 2)\<^sup>2) / 2\<close> subject to \<open>x \<le> 5\<close> and \<open>y \<le> 1\<close>" (variable keys \<open>0\<close> and
  \<open>1\<close>, dual keys \<open>2\<close> and \<open>3\<close>). Cost and constraints are separate in the two variables,
  so the working-graph solve returns, per variable, the bound when its inequality is among
  the active factors and the unconstrained minimiser otherwise; the dual solve returns, for
  each active inequality, the gradient of the cost in its variable.
\<close>

definition exIneqY :: "bool \<Rightarrow> LinearInequality" where
  "exIneqY flag = \<lparr>row = [(1, [1])], getb = 1, dualKey = 3, active = flag\<rparr>"

definition exSolver2 :: QPSolver where
  "exSolver2 =
     \<lparr>inequalities = [exFactor 1 5 2 False, exIneqY False],
      optimizeWorkingGraph = (\<lambda>fs.
         [(0, [if list_ex (\<lambda>f. dualKey f = 2) fs then 5 else 10]),
          (1, [if list_ex (\<lambda>f. dualKey f = 3) fs then 1 else 2])]),
      optimizeDualGraph = (\<lambda>fs delta.
         case delta of
           (kx, x # xs) # (ky, y # ys) # rest \<Rightarrow>
             (if list_ex (\<lambda>f. active f \<and> dualKey f = 2) fs then [(2, [x - 10])] else [])
             @ (if list_ex (\<lambda>f. active f \<and> dualKey f = 3) fs then [(3, [y - 2])] else [])
         | _ \<Rightarrow> [])\<rparr>"

definition exStore2 :: "bool \<Rightarrow> bool \<Rightarrow> store" where
  "exStore2 fx fy = [exFactor 1 5 2 fx, exIneqY fy]"

definition exState2 :: "real \<Rightarrow> real \<Rightarrow> QPState" where
  "exState2 x y = \<lparr>values = [(0, [x]), (1, [y])], duals = [], workingSet = [0, 1],
                   converged = False, iterations = 0\<rparr>"

section \<open>Auxiliary facts\<close>

lemma toInt_id: "n < 2 ^ 31 \<Longrightarrow> toInt n = int n"
  unfolding toInt_def
  by (simp add: signed_of_nat signed_take_bit_int_eq_self)

section \<open>identifyLeavingConstraint selects the largest positive multiplier\<close>

lemma vvAt_dualDefined:
  "dualDefined lambdas f \<Longrightarrow> \<exists>ls. vvAt lambdas (dualKey f) = Inr (lambdaOf lambdas f # ls)"
  by (auto simp: dualDefined_def lambdaOf_def vvAt_def split: option.splits list.splits)

lemma leavingPost_skip:
  assumes "leavingPost h lambdas ws (Suc n) w m r"
    and "\<not> active (h ! a) \<or> lambdaOf lambdas (h ! a) \<le> m"
  shows "leavingPost h lambdas (a # ws) n w m r"
proof (cases "\<forall>a\<in>set ws. active (h ! a) \<longrightarrow> lambdaOf lambdas (h ! a) \<le> m")
  case True
  with assms show ?thesis by (auto simp: leavingPost_def)
next
  case False
  with assms(1) obtain i where i: "i < length ws" "r = toInt (Suc n + i)" "active (h ! (ws ! i))"
    "m < lambdaOf lambdas (h ! (ws ! i))"
    "\<forall>j<length ws. active (h ! (ws ! j)) \<longrightarrow>
                   lambdaOf lambdas (h ! (ws ! j)) \<le> lambdaOf lambdas (h ! (ws ! i))"
    "\<forall>j<i. active (h ! (ws ! j)) \<longrightarrow>
                   lambdaOf lambdas (h ! (ws ! j)) < lambdaOf lambdas (h ! (ws ! i))"
    by (auto simp: leavingPost_def)
  have neg: "\<not> (\<forall>a'\<in>set (a # ws). active (h ! a') \<longrightarrow> lambdaOf lambdas (h ! a') \<le> m)"
    using False by auto
  have "Suc i < length (a # ws) \<and> r = toInt (n + Suc i) \<and> active (h ! ((a # ws) ! Suc i))
      \<and> m < lambdaOf lambdas (h ! ((a # ws) ! Suc i))
      \<and> (\<forall>j<length (a # ws). active (h ! ((a # ws) ! j)) \<longrightarrow>
            lambdaOf lambdas (h ! ((a # ws) ! j)) \<le> lambdaOf lambdas (h ! ((a # ws) ! Suc i)))
      \<and> (\<forall>j<Suc i. active (h ! ((a # ws) ! j)) \<longrightarrow>
            lambdaOf lambdas (h ! ((a # ws) ! j)) < lambdaOf lambdas (h ! ((a # ws) ! Suc i)))"
    using i assms(2) by (auto simp: All_less_Suc2)
  then show ?thesis unfolding leavingPost_def using neg by (simp only: if_False) blast
qed

lemma leavingPost_take:
  assumes "leavingPost h lambdas ws (Suc n) (toInt n) (lambdaOf lambdas (h ! a)) r"
    and "active (h ! a)" and "m < lambdaOf lambdas (h ! a)"
  shows "leavingPost h lambdas (a # ws) n w m r"
proof -
  have neg: "\<not> (\<forall>a'\<in>set (a # ws). active (h ! a') \<longrightarrow> lambdaOf lambdas (h ! a') \<le> m)"
    using assms(2,3) by auto
  show ?thesis
  proof (cases "\<forall>a'\<in>set ws. active (h ! a') \<longrightarrow> lambdaOf lambdas (h ! a') \<le> lambdaOf lambdas (h ! a)")
    case True
    with assms(1) have r: "r = toInt n" by (simp add: leavingPost_def)
    have "0 < length (a # ws) \<and> r = toInt (n + 0) \<and> active (h ! ((a # ws) ! 0))
      \<and> m < lambdaOf lambdas (h ! ((a # ws) ! 0))
      \<and> (\<forall>j<length (a # ws). active (h ! ((a # ws) ! j)) \<longrightarrow>
            lambdaOf lambdas (h ! ((a # ws) ! j)) \<le> lambdaOf lambdas (h ! ((a # ws) ! 0)))
      \<and> (\<forall>j<0. active (h ! ((a # ws) ! j)) \<longrightarrow>
            lambdaOf lambdas (h ! ((a # ws) ! j)) < lambdaOf lambdas (h ! ((a # ws) ! 0)))"
      using r assms(2,3) True by (auto simp: All_less_Suc2)
    then show ?thesis unfolding leavingPost_def using neg by (simp only: if_False) blast
  next
    case False
    with assms(1) obtain i where i: "i < length ws" "r = toInt (Suc n + i)" "active (h ! (ws ! i))"
      "lambdaOf lambdas (h ! a) < lambdaOf lambdas (h ! (ws ! i))"
      "\<forall>j<length ws. active (h ! (ws ! j)) \<longrightarrow>
                   lambdaOf lambdas (h ! (ws ! j)) \<le> lambdaOf lambdas (h ! (ws ! i))"
      "\<forall>j<i. active (h ! (ws ! j)) \<longrightarrow>
                   lambdaOf lambdas (h ! (ws ! j)) < lambdaOf lambdas (h ! (ws ! i))"
      by (auto simp: leavingPost_def)
    have "Suc i < length (a # ws) \<and> r = toInt (n + Suc i) \<and> active (h ! ((a # ws) ! Suc i))
      \<and> m < lambdaOf lambdas (h ! ((a # ws) ! Suc i))
      \<and> (\<forall>j<length (a # ws). active (h ! ((a # ws) ! j)) \<longrightarrow>
            lambdaOf lambdas (h ! ((a # ws) ! j)) \<le> lambdaOf lambdas (h ! ((a # ws) ! Suc i)))
      \<and> (\<forall>j<Suc i. active (h ! ((a # ws) ! j)) \<longrightarrow>
            lambdaOf lambdas (h ! ((a # ws) ! j)) < lambdaOf lambdas (h ! ((a # ws) ! Suc i)))"
      using i assms(2,3) by (auto simp: All_less_Suc2)
    then show ?thesis unfolding leavingPost_def using neg by (simp only: if_False) blast
  qed
qed

lemma leavingLoop_char:
  assumes "\<forall>a\<in>set ws. active (h ! a) \<longrightarrow> dualDefined lambdas (h ! a)"
  shows "\<exists>r. leavingLoop h lambdas ws n w m = Inr r \<and> leavingPost h lambdas ws n w m r"
  using assms
proof (induction ws arbitrary: n w m)
  case Nil
  then show ?case by (simp add: leavingPost_def)
next
  case (Cons a ws)
  have rest: "\<forall>a\<in>set ws. active (h ! a) \<longrightarrow> dualDefined lambdas (h ! a)"
    using Cons.prems by simp
  show ?case
  proof (cases "active (h ! a)")
    case False
    from Cons.IH[OF rest, of "Suc n" w m] obtain r where
      r: "leavingLoop h lambdas ws (Suc n) w m = Inr r" "leavingPost h lambdas ws (Suc n) w m r"
      by blast
    from r(2) False have "leavingPost h lambdas (a # ws) n w m r"
      by (intro leavingPost_skip) auto
    with r(1) False show ?thesis by simp
  next
    case True
    with Cons.prems have "dualDefined lambdas (h ! a)" by simp
    then obtain ls where at: "vvAt lambdas (dualKey (h ! a)) = Inr (lambdaOf lambdas (h ! a) # ls)"
      using vvAt_dualDefined by blast
    show ?thesis
    proof (cases "lambdaOf lambdas (h ! a) > m")
      case gt: True
      from Cons.IH[OF rest, of "Suc n" "toInt n" "lambdaOf lambdas (h ! a)"] obtain r where
        r: "leavingLoop h lambdas ws (Suc n) (toInt n) (lambdaOf lambdas (h ! a)) = Inr r"
           "leavingPost h lambdas ws (Suc n) (toInt n) (lambdaOf lambdas (h ! a)) r"
        by blast
      from r(2) True gt have "leavingPost h lambdas (a # ws) n w m r"
        by (intro leavingPost_take) auto
      with r(1) True gt at show ?thesis by simp
    next
      case le: False
      from Cons.IH[OF rest, of "Suc n" w m] obtain r where
        r: "leavingLoop h lambdas ws (Suc n) w m = Inr r" "leavingPost h lambdas ws (Suc n) w m r"
        by blast
      from r(2) le have "leavingPost h lambdas (a # ws) n w m r"
        by (intro leavingPost_skip) auto
      with r(1) True le at show ?thesis by simp
    qed
  qed
qed

text \<open>
  Claim C4. For a working set of fewer than \<open>2^31\<close> constraints and duals that hold a
  non-empty vector at the dual key of every active constraint, \<^verbatim>\<open>identifyLeavingConstraint\<close>
  returns \<open>-1\<close> when no active constraint has a strictly positive multiplier, and otherwise
  the index of an active constraint whose multiplier is strictly positive, is at least the
  multiplier of every active constraint, and is strictly larger than the multiplier of every
  active constraint before it (the first of several largest wins). Inactive constraints and
  their duals play no part.
\<close>

theorem identifyLeavingConstraint_largest_positive:
  assumes "length ws < 2 ^ 31"
    and "\<forall>a\<in>set ws. active (h ! a) \<longrightarrow> dualDefined lambdas (h ! a)"
  shows "\<exists>r. identifyLeavingConstraint h ws lambdas = Inr r \<and>
     (if \<forall>a\<in>set ws. active (h ! a) \<longrightarrow> lambdaOf lambdas (h ! a) \<le> 0 then r = - 1
      else \<exists>i<length ws. r = int i \<and> active (h ! (ws ! i))
             \<and> 0 < lambdaOf lambdas (h ! (ws ! i))
             \<and> (\<forall>j<length ws. active (h ! (ws ! j)) \<longrightarrow>
                   lambdaOf lambdas (h ! (ws ! j)) \<le> lambdaOf lambdas (h ! (ws ! i)))
             \<and> (\<forall>j<i. active (h ! (ws ! j)) \<longrightarrow>
                   lambdaOf lambdas (h ! (ws ! j)) < lambdaOf lambdas (h ! (ws ! i))))"
proof -
  from leavingLoop_char[OF assms(2), of 0 "- 1" 0] obtain r where
    r: "leavingLoop h lambdas ws 0 (- 1) 0 = Inr r" "leavingPost h lambdas ws 0 (- 1) 0 r"
    by blast
  have conv: "\<And>i. i < length ws \<Longrightarrow> toInt (0 + i) = int i"
    using assms(1) by (simp add: toInt_id)
  from r(2) have "(if \<forall>a\<in>set ws. active (h ! a) \<longrightarrow> lambdaOf lambdas (h ! a) \<le> 0 then r = - 1
      else \<exists>i<length ws. r = int i \<and> active (h ! (ws ! i))
             \<and> 0 < lambdaOf lambdas (h ! (ws ! i))
             \<and> (\<forall>j<length ws. active (h ! (ws ! j)) \<longrightarrow>
                   lambdaOf lambdas (h ! (ws ! j)) \<le> lambdaOf lambdas (h ! (ws ! i)))
             \<and> (\<forall>j<i. active (h ! (ws ! j)) \<longrightarrow>
                   lambdaOf lambdas (h ! (ws ! j)) < lambdaOf lambdas (h ! (ws ! i))))"
    unfolding leavingPost_def using conv by (auto split: if_splits)
  with r(1) show ?thesis by (simp add: identifyLeavingConstraint_def)
qed

theorem identifyLeavingConstraint_largest_positive_witness:
  "length [0, 1, 2, 3::nat] < 2 ^ 31
   \<and> dualDefined exLambdas (exStore4 ! 0) \<and> \<not> active (exStore4 ! 1)
   \<and> dualDefined exLambdas (exStore4 ! 2) \<and> dualDefined exLambdas (exStore4 ! 3)
   \<and> identifyLeavingConstraint exStore4 [0, 1, 2, 3] exLambdas = Inr 2"
proof -
  have len: "length [0, 1, 2, 3::nat] < 2 ^ 31" by simp
  have dd: "\<forall>a\<in>set [0, 1, 2, 3]. active (exStore4 ! a) \<longrightarrow> dualDefined exLambdas (exStore4 ! a)"
    by (simp add: exStore4_def exLambdas_def exFactor_def dualDefined_def)
  have pos: "\<not> (\<forall>a\<in>set [0, 1, 2, 3]. active (exStore4 ! a) \<longrightarrow> lambdaOf exLambdas (exStore4 ! a) \<le> 0)"
    by (simp add: exStore4_def exLambdas_def exFactor_def lambdaOf_def)
  from identifyLeavingConstraint_largest_positive[OF len dd] pos
  obtain r i where r: "identifyLeavingConstraint exStore4 [0, 1, 2, 3] exLambdas = Inr r"
     and i: "i < length [0, 1, 2, 3::nat]" "r = int i"
       "active (exStore4 ! ([0, 1, 2, 3] ! i))"
       "\<forall>j<length [0, 1, 2, 3::nat]. active (exStore4 ! ([0, 1, 2, 3] ! j)) \<longrightarrow>
          lambdaOf exLambdas (exStore4 ! ([0, 1, 2, 3] ! j)) \<le> lambdaOf exLambdas (exStore4 ! ([0, 1, 2, 3] ! i))"
       "\<forall>j<i. active (exStore4 ! ([0, 1, 2, 3] ! j)) \<longrightarrow>
          lambdaOf exLambdas (exStore4 ! ([0, 1, 2, 3] ! j)) < lambdaOf exLambdas (exStore4 ! ([0, 1, 2, 3] ! i))"
    by (auto split: if_splits)
  have "i = 2"
  proof -
    from i(1) have "i = 0 \<or> i = 1 \<or> i = 2 \<or> i = 3" by auto
    then show ?thesis
    proof (elim disjE)
      assume "i = 0"
      with i(4) have False
        by (auto simp: exStore4_def exLambdas_def exFactor_def lambdaOf_def All_less_Suc2 numeral_eq_Suc)
      then show ?thesis ..
    next
      assume "i = 1"
      with i(3) show ?thesis by (simp add: exStore4_def exFactor_def)
    next
      assume "i = 2" then show ?thesis .
    next
      assume "i = 3"
      with i(5) have False
        by (auto simp: exStore4_def exLambdas_def exFactor_def lambdaOf_def All_less_Suc2 numeral_eq_Suc)
      then show ?thesis ..
    qed
  qed
  with r i(2) have "identifyLeavingConstraint exStore4 [0, 1, 2, 3] exLambdas = Inr 2" by simp
  moreover have "dualDefined exLambdas (exStore4 ! 0) \<and> \<not> active (exStore4 ! 1)
   \<and> dualDefined exLambdas (exStore4 ! 2) \<and> dualDefined exLambdas (exStore4 ! 3)"
    by (simp add: exStore4_def exLambdas_def exFactor_def dualDefined_def)
  ultimately show ?thesis using len by blast
qed

section \<open>computeStepSize: the ratio test\<close>

lemma rowOk_dot: "rowOk f x \<Longrightarrow> dotProductRow f x = Inr (aT f x)"
  by (cases "dotProductRow f x") (simp_all add: rowOk_def aT_def)

lemma stepPost_skip:
  assumes "stepPost h xk p ws (Suc n) m c alpha ix"
    and "active (h ! a) \<or> aT (h ! a) p \<le> 0 \<or> m \<le> ratio (h ! a) xk p"
  shows "stepPost h xk p (a # ws) n m c alpha ix"
proof -
  from assms(1) have le: "alpha \<le> m"
    and all: "\<forall>a\<in>set ws. \<not> active (h ! a) \<and> 0 < aT (h ! a) p \<longrightarrow> alpha \<le> ratio (h ! a) xk p"
    and dis: "(alpha = m \<and> ix = c)
          \<or> (\<exists>i<length ws. ix = toInt (Suc n + i) \<and> \<not> active (h ! (ws ! i))
                \<and> 0 < aT (h ! (ws ! i)) p \<and> alpha = ratio (h ! (ws ! i)) xk p \<and> alpha < m)"
    by (simp_all add: stepPost_def)
  have all': "\<forall>a'\<in>set (a # ws). \<not> active (h ! a') \<and> 0 < aT (h ! a') p \<longrightarrow> alpha \<le> ratio (h ! a') xk p"
    using all assms(2) le by auto
  have dis': "(alpha = m \<and> ix = c)
          \<or> (\<exists>i<length (a # ws). ix = toInt (n + i) \<and> \<not> active (h ! ((a # ws) ! i))
                \<and> 0 < aT (h ! ((a # ws) ! i)) p \<and> alpha = ratio (h ! ((a # ws) ! i)) xk p \<and> alpha < m)"
  proof (rule disjE[OF dis])
    assume "alpha = m \<and> ix = c" then show ?thesis by blast
  next
    assume "\<exists>i<length ws. ix = toInt (Suc n + i) \<and> \<not> active (h ! (ws ! i))
                \<and> 0 < aT (h ! (ws ! i)) p \<and> alpha = ratio (h ! (ws ! i)) xk p \<and> alpha < m"
    then obtain i where "i < length ws" "ix = toInt (Suc n + i)" "\<not> active (h ! (ws ! i))"
      "0 < aT (h ! (ws ! i)) p" "alpha = ratio (h ! (ws ! i)) xk p" "alpha < m" by blast
    then have "Suc i < length (a # ws) \<and> ix = toInt (n + Suc i) \<and> \<not> active (h ! ((a # ws) ! Suc i))
                \<and> 0 < aT (h ! ((a # ws) ! Suc i)) p \<and> alpha = ratio (h ! ((a # ws) ! Suc i)) xk p \<and> alpha < m"
      by simp
    then show ?thesis by blast
  qed
  from le all' dis' show ?thesis unfolding stepPost_def by blast
qed

lemma stepPost_take:
  assumes "stepPost h xk p ws (Suc n) (ratio (h ! a) xk p) (toInt n) alpha ix"
    and "\<not> active (h ! a)" and "0 < aT (h ! a) p" and "ratio (h ! a) xk p < m"
  shows "stepPost h xk p (a # ws) n m c alpha ix"
proof -
  from assms(1) have le: "alpha \<le> ratio (h ! a) xk p"
    and all: "\<forall>a\<in>set ws. \<not> active (h ! a) \<and> 0 < aT (h ! a) p \<longrightarrow> alpha \<le> ratio (h ! a) xk p"
    and dis: "(alpha = ratio (h ! a) xk p \<and> ix = toInt n)
          \<or> (\<exists>i<length ws. ix = toInt (Suc n + i) \<and> \<not> active (h ! (ws ! i))
                \<and> 0 < aT (h ! (ws ! i)) p \<and> alpha = ratio (h ! (ws ! i)) xk p
                \<and> alpha < ratio (h ! a) xk p)"
    by (simp_all add: stepPost_def)
  have le': "alpha \<le> m" using le assms(4) by simp
  have all': "\<forall>a'\<in>set (a # ws). \<not> active (h ! a') \<and> 0 < aT (h ! a') p \<longrightarrow> alpha \<le> ratio (h ! a') xk p"
    using all le by auto
  have dis': "\<exists>i<length (a # ws). ix = toInt (n + i) \<and> \<not> active (h ! ((a # ws) ! i))
                \<and> 0 < aT (h ! ((a # ws) ! i)) p \<and> alpha = ratio (h ! ((a # ws) ! i)) xk p \<and> alpha < m"
  proof (rule disjE[OF dis])
    assume "alpha = ratio (h ! a) xk p \<and> ix = toInt n"
    then have "0 < length (a # ws) \<and> ix = toInt (n + 0) \<and> \<not> active (h ! ((a # ws) ! 0))
                \<and> 0 < aT (h ! ((a # ws) ! 0)) p \<and> alpha = ratio (h ! ((a # ws) ! 0)) xk p \<and> alpha < m"
      using assms(2,3,4) by simp
    then show ?thesis by blast
  next
    assume "\<exists>i<length ws. ix = toInt (Suc n + i) \<and> \<not> active (h ! (ws ! i))
                \<and> 0 < aT (h ! (ws ! i)) p \<and> alpha = ratio (h ! (ws ! i)) xk p
                \<and> alpha < ratio (h ! a) xk p"
    then obtain i where "i < length ws" "ix = toInt (Suc n + i)" "\<not> active (h ! (ws ! i))"
      "0 < aT (h ! (ws ! i)) p" "alpha = ratio (h ! (ws ! i)) xk p" "alpha < ratio (h ! a) xk p" by blast
    then have "Suc i < length (a # ws) \<and> ix = toInt (n + Suc i) \<and> \<not> active (h ! ((a # ws) ! Suc i))
                \<and> 0 < aT (h ! ((a # ws) ! Suc i)) p \<and> alpha = ratio (h ! ((a # ws) ! Suc i)) xk p \<and> alpha < m"
      using assms(4) by simp
    then show ?thesis by blast
  qed
  from le' all' dis' show ?thesis unfolding stepPost_def by blast
qed

lemma stepLoop_char:
  assumes "\<forall>a\<in>set ws. \<not> active (h ! a) \<longrightarrow> rowOk (h ! a) p \<and> rowOk (h ! a) xk"
  shows "\<exists>alpha ix. stepLoop h xk p ws n m c = Inr (alpha, ix) \<and> stepPost h xk p ws n m c alpha ix"
  using assms
proof (induction ws arbitrary: n m c)
  case Nil
  then show ?case by (simp add: stepPost_def)
next
  case (Cons a ws)
  have rest: "\<forall>a\<in>set ws. \<not> active (h ! a) \<longrightarrow> rowOk (h ! a) p \<and> rowOk (h ! a) xk"
    using Cons.prems by simp
  have dp: "\<not> active (h ! a) \<Longrightarrow> dotProductRow (h ! a) p = Inr (aT (h ! a) p)"
    and dx: "\<not> active (h ! a) \<Longrightarrow> dotProductRow (h ! a) xk = Inr (aT (h ! a) xk)"
    using Cons.prems by (simp_all add: rowOk_dot)
  show ?case
  proof (cases "\<not> active (h ! a) \<and> 0 < aT (h ! a) p \<and> ratio (h ! a) xk p < m")
    case True
    from Cons.IH[OF rest, of "Suc n" "ratio (h ! a) xk p" "toInt n"] obtain alpha ix where
      r: "stepLoop h xk p ws (Suc n) (ratio (h ! a) xk p) (toInt n) = Inr (alpha, ix)"
         "stepPost h xk p ws (Suc n) (ratio (h ! a) xk p) (toInt n) alpha ix"
      by blast
    from r(2) True have "stepPost h xk p (a # ws) n m c alpha ix"
      by (intro stepPost_take) auto
    moreover have "stepLoop h xk p (a # ws) n m c = Inr (alpha, ix)"
      using True r(1) dp dx by (simp add: ratio_def)
    ultimately show ?thesis by blast
  next
    case False
    from Cons.IH[OF rest, of "Suc n" m c] obtain alpha ix where
      r: "stepLoop h xk p ws (Suc n) m c = Inr (alpha, ix)"
         "stepPost h xk p ws (Suc n) m c alpha ix"
      by blast
    from r(2) False have "stepPost h xk p (a # ws) n m c alpha ix"
      by (intro stepPost_skip) auto
    moreover have "stepLoop h xk p (a # ws) n m c = Inr (alpha, ix)"
      using False r(1) dp dx by (auto simp add: ratio_def)
    ultimately show ?thesis by blast
  qed
qed

subsection \<open>Row products are linear in the point\<close>

lemma dot_lincomb:
  "length a = length u \<Longrightarrow> length u = length v \<Longrightarrow>
   sum_list (map2 (*) a (map2 (\<lambda>s t. s + c * t) u v))
     = sum_list (map2 (*) a u) + c * sum_list (map2 (*) a (v::real list))"
  by (induction a u v rule: list_induct3) (simp_all add: algebra_simps)

lemma map_of_vvCombine:
  "hasSameStructure x y \<Longrightarrow> map_of x k = Some u \<Longrightarrow>
   \<exists>v. map_of y k = Some v \<and> length u = length v \<and> map_of (vvCombine f x y) k = Some (map2 f u v)"
  by (induction x y rule: hasSameStructure.induct) (auto simp: vvCombine_def)

lemma vvAt_Inr: "vvAt x k = Inr u \<longleftrightarrow> map_of x k = Some u"
  by (simp add: vvAt_def split: option.splits)

lemma rowDot_Cons_Inr:
  "rowDot ((k, aj) # ts) x = Inr u \<longleftrightarrow>
     (\<exists>xv u'. map_of x k = Some xv \<and> length aj = length xv \<and> rowDot ts x = Inr u'
        \<and> u = sum_list (map2 (*) aj xv) + u')"
  by (cases "map_of x k"; cases "rowDot ts x") (auto simp: vvAt_def)

lemma rowDot_lincomb:
  assumes "hasSameStructure x y"
  shows "rowDot r x = Inr u \<Longrightarrow> rowDot r y = Inr v \<Longrightarrow>
         rowDot r (vvCombine (\<lambda>s t. s + c * t) x y) = Inr (u + c * v)"
proof (induction r arbitrary: u v)
  case Nil
  then show ?case by simp
next
  case (Cons kv ts)
  obtain k aj where kv: "kv = (k, aj)" by (cases kv)
  from Cons.prems(1) obtain xv u' where
    x: "map_of x k = Some xv" "length aj = length xv" "rowDot ts x = Inr u'"
       "u = sum_list (map2 (*) aj xv) + u'"
    unfolding kv rowDot_Cons_Inr by blast
  from Cons.prems(2) obtain yv v' where
    y: "map_of y k = Some yv" "length aj = length yv" "rowDot ts y = Inr v'"
       "v = sum_list (map2 (*) aj yv) + v'"
    unfolding kv rowDot_Cons_Inr by blast
  from map_of_vvCombine[OF assms x(1), of "\<lambda>s t. s + c * t"] y(1)
  have comb: "map_of (vvCombine (\<lambda>s t. s + c * t) x y) k = Some (map2 (\<lambda>s t. s + c * t) xv yv)"
    by simp
  have len: "length aj = length (map2 (\<lambda>s t. s + c * t) xv yv)"
    using x(2) y(2) by simp
  have rest: "rowDot ts (vvCombine (\<lambda>s t. s + c * t) x y) = Inr (u' + c * v')"
    using Cons.IH[OF x(3) y(3)] .
  have d: "sum_list (map2 (*) aj (map2 (\<lambda>s t. s + c * t) xv yv))
            = sum_list (map2 (*) aj xv) + c * sum_list (map2 (*) aj yv)"
    using dot_lincomb[of aj xv yv c] x(2) y(2) by simp
  have "rowDot ((k, aj) # ts) (vvCombine (\<lambda>s t. s + c * t) x y)
          = Inr (sum_list (map2 (*) aj (map2 (\<lambda>s t. s + c * t) xv yv)) + (u' + c * v'))"
    unfolding rowDot_Cons_Inr using comb len rest by blast
  then show ?case unfolding kv d x(4) y(4) by (simp add: algebra_simps)
qed

lemma map2_plus_scale:
  "map2 (+) u (map ((*) c) v) = map2 (\<lambda>s t. s + c * t) u (v::real list)"
  by (induction u v rule: list_induct2') simp_all

lemma vvCombine_plus_scale:
  "vvCombine (+) x (vvScale c p) = vvCombine (\<lambda>s t. s + c * t) x p"
  unfolding vvCombine_def vvScale_def
  by (induction x p rule: list_induct2') (simp_all add: map2_plus_scale)

lemma vvCombine_minus:
  "vvCombine (-) x y = vvCombine (\<lambda>s t. s + (- 1) * t) x y"
proof -
  have "((-) :: real \<Rightarrow> real \<Rightarrow> real) = (\<lambda>s t. s + (- 1) * t)" by (intro ext) simp
  then show ?thesis by (simp only:)
qed

lemma hasSameStructure_vvScale:
  "hasSameStructure x (vvScale c p) = hasSameStructure x p"
  by (induction x p rule: hasSameStructure.induct) (simp_all add: vvScale_def)

lemma dotProductRow_step:
  assumes "hasSameStructure x p" "rowOk f x" "rowOk f p"
  shows "\<exists>y. vvPlus x (vvScale c p) = Inr y \<and> dotProductRow f y = Inr (aT f x + c * aT f p)"
proof -
  have x: "rowDot (row f) x = Inr (aT f x)" and p: "rowDot (row f) p = Inr (aT f p)"
    using assms(2,3) rowOk_dot by (simp_all add: dotProductRow_def)
  have "rowDot (row f) (vvCombine (\<lambda>s t. s + c * t) x p) = Inr (aT f x + c * aT f p)"
    using rowDot_lincomb[OF assms(1) x p] .
  then show ?thesis
    using assms(1) by (simp add: vvPlus_def hasSameStructure_vvScale vvCombine_plus_scale dotProductRow_def)
qed

lemma dotProductRow_minus:
  assumes "hasSameStructure n x" "rowOk f n" "rowOk f x"
  shows "dotProductRow f (vvCombine (-) n x) = Inr (aT f n - aT f x)"
proof -
  have n: "rowDot (row f) n = Inr (aT f n)" and x: "rowDot (row f) x = Inr (aT f x)"
    using assms(2,3) rowOk_dot by (simp_all add: dotProductRow_def)
  have "rowDot (row f) (vvCombine (\<lambda>s t. s + (- 1) * t) n x) = Inr (aT f n + (- 1) * aT f x)"
    using rowDot_lincomb[OF assms(1) n x] .
  then show ?thesis unfolding dotProductRow_def vvCombine_minus by simp
qed

lemma exFactor_dot [simp]: "dotProductRow (exFactor a bound dk flag) [(0, [v])] = Inr (a * v)"
  by (simp add: dotProductRow_def exFactor_def vvAt_def)

lemma exFactor_rowOk [simp]: "rowOk (exFactor a bound dk flag) [(0, [v])]"
  by (simp add: rowOk_def)

lemma exFactor_aT [simp]: "aT (exFactor a bound dk flag) [(0, [v])] = a * v"
  by (simp add: aT_def)

lemma exFactor_sel [simp]:
  "getb (exFactor a bound dk flag) = bound" "dualKey (exFactor a bound dk flag) = dk"
  "active (exFactor a bound dk flag) = flag"
  by (simp_all add: exFactor_def)

lemma exStore1_nth [simp]: "exStore1 a bound flag ! 0 = exFactor a bound 2 flag"
  by (simp add: exStore1_def)

text \<open>
  Claim C10. \<^verbatim>\<open>computeStepSize\<close> has no lower clamp. Whenever the row products it needs are
  defined it returns a step length of at most \<open>1\<close>; if the working set holds an inactive
  constraint with \<open>a\<^sup>T xk > b\<close> and \<open>a\<^sup>T p > 0\<close>, the returned step length is strictly
  negative; and if \<open>xk\<close> satisfies every inactive constraint, the returned step length is
  not negative.
\<close>

theorem computeStepSize_no_lower_clamp:
  assumes "\<forall>a\<in>set ws. \<not> active (h ! a) \<longrightarrow> rowOk (h ! a) p \<and> rowOk (h ! a) xk"
  shows "\<exists>alpha ix. computeStepSize h ws xk p = Inr (alpha, ix) \<and> alpha \<le> 1
     \<and> ((\<exists>a\<in>set ws. \<not> active (h ! a) \<and> getb (h ! a) < aT (h ! a) xk \<and> 0 < aT (h ! a) p)
            \<longrightarrow> alpha < 0)
     \<and> ((\<forall>a\<in>set ws. \<not> active (h ! a) \<longrightarrow> aT (h ! a) xk \<le> getb (h ! a)) \<longrightarrow> 0 \<le> alpha)"
proof -
  from stepLoop_char[OF assms, of 0 1 "- 1"] obtain alpha ix where
    r: "stepLoop h xk p ws 0 1 (- 1) = Inr (alpha, ix)" and post: "stepPost h xk p ws 0 1 (- 1) alpha ix"
    by blast
  from post have le: "alpha \<le> 1"
    and all: "\<forall>a\<in>set ws. \<not> active (h ! a) \<and> 0 < aT (h ! a) p \<longrightarrow> alpha \<le> ratio (h ! a) xk p"
    and dis: "(alpha = 1 \<and> ix = - 1)
          \<or> (\<exists>i<length ws. ix = toInt (0 + i) \<and> \<not> active (h ! (ws ! i))
                \<and> 0 < aT (h ! (ws ! i)) p \<and> alpha = ratio (h ! (ws ! i)) xk p \<and> alpha < 1)"
    by (simp_all add: stepPost_def)
  have neg: "alpha < 0" if "\<exists>a\<in>set ws. \<not> active (h ! a) \<and> getb (h ! a) < aT (h ! a) xk \<and> 0 < aT (h ! a) p"
  proof -
    from that obtain a where a: "a \<in> set ws" "\<not> active (h ! a)" "getb (h ! a) < aT (h ! a) xk" "0 < aT (h ! a) p"
      by blast
    with all have "alpha \<le> ratio (h ! a) xk p" by blast
    moreover have "ratio (h ! a) xk p < 0"
      unfolding ratio_def using a(3,4) by (simp add: divide_neg_pos)
    ultimately show ?thesis by simp
  qed
  have nonneg: "0 \<le> alpha" if feas: "\<forall>a\<in>set ws. \<not> active (h ! a) \<longrightarrow> aT (h ! a) xk \<le> getb (h ! a)"
  proof (rule disjE[OF dis])
    assume "alpha = 1 \<and> ix = - 1" then show ?thesis by simp
  next
    assume "\<exists>i<length ws. ix = toInt (0 + i) \<and> \<not> active (h ! (ws ! i))
                \<and> 0 < aT (h ! (ws ! i)) p \<and> alpha = ratio (h ! (ws ! i)) xk p \<and> alpha < 1"
    then obtain i where i: "i < length ws" "\<not> active (h ! (ws ! i))" "0 < aT (h ! (ws ! i)) p"
      "alpha = ratio (h ! (ws ! i)) xk p" by blast
    from i(1,2) feas have "aT (h ! (ws ! i)) xk \<le> getb (h ! (ws ! i))" by simp
    with i(3,4) show ?thesis unfolding ratio_def by simp
  qed
  from r le neg nonneg show ?thesis unfolding computeStepSize_def by blast
qed

theorem computeStepSize_no_lower_clamp_witness:
  "rowOk (exStore1 1 5 False ! 0) [(0, [1])] \<and> rowOk (exStore1 1 5 False ! 0) [(0, [6])]
   \<and> \<not> active (exStore1 1 5 False ! 0)
   \<and> getb (exStore1 1 5 False ! 0) < aT (exStore1 1 5 False ! 0) [(0, [6])]
   \<and> 0 < aT (exStore1 1 5 False ! 0) [(0, [1])]
   \<and> computeStepSize (exStore1 1 5 False) [0] [(0, [6])] [(0, [1])] = Inr (- 1, 0)
   \<and> (- 1 :: real) < 0"
proof -
  have pre: "\<forall>a\<in>set [0]. \<not> active (exStore1 1 5 False ! a) \<longrightarrow>
      rowOk (exStore1 1 5 False ! a) [(0, [1])] \<and> rowOk (exStore1 1 5 False ! a) [(0, [6])]"
    by simp
  have viol: "\<exists>a\<in>set [0]. \<not> active (exStore1 1 5 False ! a)
      \<and> getb (exStore1 1 5 False ! a) < aT (exStore1 1 5 False ! a) [(0, [6])]
      \<and> 0 < aT (exStore1 1 5 False ! a) [(0, [1])]"
    by simp
  from computeStepSize_no_lower_clamp[OF pre] viol obtain alpha ix where
    r: "computeStepSize (exStore1 1 5 False) [0] [(0, [6])] [(0, [1])] = Inr (alpha, ix)"
    and neg: "alpha < 0"
    by blast
  have ev: "computeStepSize (exStore1 1 5 False) [0] [(0, [6])] [(0, [1])] = Inr (- 1, 0)"
    by (simp add: computeStepSize_def toInt_def)
  from r ev have "alpha = - 1" by simp
  with neg have "(- 1 :: real) < 0" by simp
  with ev show ?thesis by simp
qed

text \<open>
  Claim C5, as amended. For a working set of fewer than \<open>2^31\<close> constraints whose only inactive
  constraint has \<open>a\<^sup>T p > 0\<close>, and a direction \<open>p\<close> of the same structure as \<open>x\<close>,
  \<^verbatim>\<open>computeStepSize\<close> returns \<open>\<alpha> = min 1 ((b - a\<^sup>T x) / (a\<^sup>T p))\<close>. The stepped point
  satisfies \<open>a\<^sup>T (x + \<alpha> p) \<le> b\<close>, with equality whenever the ratio is at most \<open>1\<close>; when the
  ratio exceeds \<open>1\<close> the step length is the cap \<open>1\<close>, no constraint is reported and the
  inequality is strict.
\<close>

theorem computeStepSize_ratio_test:
  assumes len: "length ws < 2 ^ 31"
    and i: "i < length ws" "\<not> active (h ! (ws ! i))"
    and others: "\<forall>j<length ws. j \<noteq> i \<longrightarrow> active (h ! (ws ! j))"
    and ok: "rowOk (h ! (ws ! i)) p" "rowOk (h ! (ws ! i)) xk"
    and pos: "0 < aT (h ! (ws ! i)) p"
    and struct: "hasSameStructure xk p"
  shows "\<exists>alpha ix y. computeStepSize h ws xk p = Inr (alpha, ix)
           \<and> vvPlus xk (vvScale alpha p) = Inr y
           \<and> alpha = min 1 (ratio (h ! (ws ! i)) xk p)
           \<and> ix = (if ratio (h ! (ws ! i)) xk p < 1 then int i else - 1)
           \<and> dotProductRow (h ! (ws ! i)) y = Inr (aT (h ! (ws ! i)) xk + alpha * aT (h ! (ws ! i)) p)
           \<and> aT (h ! (ws ! i)) xk + alpha * aT (h ! (ws ! i)) p \<le> getb (h ! (ws ! i))
           \<and> (ratio (h ! (ws ! i)) xk p \<le> 1 \<longrightarrow>
                dotProductRow (h ! (ws ! i)) y = Inr (getb (h ! (ws ! i))))
           \<and> (1 < ratio (h ! (ws ! i)) xk p \<longrightarrow>
                aT (h ! (ws ! i)) xk + alpha * aT (h ! (ws ! i)) p < getb (h ! (ws ! i)))"
proof -
  let ?f = "h ! (ws ! i)"
  let ?r = "ratio ?f xk p"
  have inact: "\<And>a. a \<in> set ws \<Longrightarrow> \<not> active (h ! a) \<Longrightarrow> a = ws ! i"
    using others by (metis in_set_conv_nth)
  have pre: "\<forall>a\<in>set ws. \<not> active (h ! a) \<longrightarrow> rowOk (h ! a) p \<and> rowOk (h ! a) xk"
    using inact ok by blast
  from stepLoop_char[OF pre, of 0 1 "- 1"] obtain alpha ix where
    r: "stepLoop h xk p ws 0 1 (- 1) = Inr (alpha, ix)" and post: "stepPost h xk p ws 0 1 (- 1) alpha ix"
    by blast
  from post have le: "alpha \<le> 1"
    and all: "\<forall>a\<in>set ws. \<not> active (h ! a) \<and> 0 < aT (h ! a) p \<longrightarrow> alpha \<le> ratio (h ! a) xk p"
    and dis: "(alpha = 1 \<and> ix = - 1)
          \<or> (\<exists>j<length ws. ix = toInt (0 + j) \<and> \<not> active (h ! (ws ! j))
                \<and> 0 < aT (h ! (ws ! j)) p \<and> alpha = ratio (h ! (ws ! j)) xk p \<and> alpha < 1)"
    by (simp_all add: stepPost_def)
  have ler: "alpha \<le> ?r" using all i pos by (meson nth_mem)
  have dis': "(alpha = 1 \<and> ix = - 1) \<or> (ix = int i \<and> alpha = ?r \<and> alpha < 1)"
  proof (rule disjE[OF dis])
    assume "alpha = 1 \<and> ix = - 1" then show ?thesis by blast
  next
    assume "\<exists>j<length ws. ix = toInt (0 + j) \<and> \<not> active (h ! (ws ! j))
                \<and> 0 < aT (h ! (ws ! j)) p \<and> alpha = ratio (h ! (ws ! j)) xk p \<and> alpha < 1"
    then obtain j where j: "j < length ws" "ix = toInt (0 + j)" "\<not> active (h ! (ws ! j))"
      "alpha = ratio (h ! (ws ! j)) xk p" "alpha < 1" by blast
    from j(1,3) others have "j = i" by blast
    moreover have "toInt (0 + i) = int i" using i(1) len by (simp add: toInt_id)
    ultimately show ?thesis using j by simp
  qed
  have alpha: "alpha = min 1 ?r" using dis' ler by auto
  have ix: "ix = (if ?r < 1 then int i else - 1)" using dis' ler by auto
  from dotProductRow_step[OF struct ok(2) ok(1), of alpha] obtain y where
    y: "vvPlus xk (vvScale alpha p) = Inr y"
       "dotProductRow ?f y = Inr (aT ?f xk + alpha * aT ?f p)" by blast
  have mul: "?r * aT ?f p = getb ?f - aT ?f xk"
    unfolding ratio_def using pos by simp
  have bound: "aT ?f xk + alpha * aT ?f p \<le> getb ?f"
  proof -
    have "alpha * aT ?f p \<le> ?r * aT ?f p" using ler pos by (simp add: mult_right_mono)
    with mul show ?thesis by simp
  qed
  have exact: "dotProductRow ?f y = Inr (getb ?f)" if "?r \<le> 1"
  proof -
    from that alpha have "alpha = ?r" by simp
    with mul y(2) show ?thesis by simp
  qed
  have strict: "aT ?f xk + alpha * aT ?f p < getb ?f" if "1 < ?r"
  proof -
    from that alpha have "alpha = 1" by simp
    moreover from that pos have "1 * aT ?f p < ?r * aT ?f p" by (intro mult_strict_right_mono)
    ultimately show ?thesis using mul by simp
  qed
  from r y alpha ix bound exact strict show ?thesis unfolding computeStepSize_def by blast
qed

theorem computeStepSize_ratio_test_witness:
  "length [0::nat] < 2 ^ 31 \<and> (0::nat) < length [0::nat] \<and> \<not> active (exStore1 1 5 False ! 0)
   \<and> rowOk (exStore1 1 5 False ! 0) [(0, [10])] \<and> rowOk (exStore1 1 5 False ! 0) [(0, [0])]
   \<and> 0 < aT (exStore1 1 5 False ! 0) [(0, [10])]
   \<and> hasSameStructure [(0, [0])] [(0, [10])]
   \<and> ratio (exStore1 1 5 False ! 0) [(0, [0])] [(0, [10])] = 1 / 2
   \<and> computeStepSize (exStore1 1 5 False) [0] [(0, [0])] [(0, [10])] = Inr (1 / 2, 0)
   \<and> vvPlus [(0, [0])] (vvScale (1 / 2) [(0, [10])]) = Inr [(0, [5])]
   \<and> dotProductRow (exStore1 1 5 False ! 0) [(0, [5])] = Inr (getb (exStore1 1 5 False ! 0))"
proof -
  have len: "length [0::nat] < 2 ^ 31" by simp
  have i: "(0::nat) < length [0::nat]" "\<not> active (exStore1 1 5 False ! ([0] ! 0))" by simp_all
  have others: "\<forall>j<length [0::nat]. j \<noteq> 0 \<longrightarrow> active (exStore1 1 5 False ! ([0] ! j))" by simp
  have ok: "rowOk (exStore1 1 5 False ! ([0] ! 0)) [(0, [10])]"
    "rowOk (exStore1 1 5 False ! ([0] ! 0)) [(0, [0])]" by simp_all
  have pos: "0 < aT (exStore1 1 5 False ! ([0] ! 0)) [(0, [10])]" by simp
  have struct: "hasSameStructure [(0, [0::real])] [(0, [10])]" by simp
  have rat: "ratio (exStore1 1 5 False ! 0) [(0, [0])] [(0, [10])] = 1 / 2"
    by (simp add: ratio_def)
  from computeStepSize_ratio_test[OF len i others ok pos struct] obtain alpha ix y where
    r: "computeStepSize (exStore1 1 5 False) [0] [(0, [0])] [(0, [10])] = Inr (alpha, ix)"
       "vvPlus [(0, [0])] (vvScale alpha [(0, [10])]) = Inr y"
       "alpha = min 1 (ratio (exStore1 1 5 False ! ([0] ! 0)) [(0, [0])] [(0, [10])])"
       "ix = (if ratio (exStore1 1 5 False ! ([0] ! 0)) [(0, [0])] [(0, [10])] < 1 then int 0 else - 1)"
       "ratio (exStore1 1 5 False ! ([0] ! 0)) [(0, [0])] [(0, [10])] \<le> 1 \<longrightarrow>
          dotProductRow (exStore1 1 5 False ! ([0] ! 0)) y = Inr (getb (exStore1 1 5 False ! ([0] ! 0)))"
    by blast
  from r(3) rat have alpha: "alpha = 1 / 2" by simp
  from r(4) rat have ix: "ix = 0" by simp
  from r(2) alpha have y: "y = [(0, [5])]"
    by (simp add: vvPlus_def vvScale_def vvCombine_def)
  from r(5) rat y have "dotProductRow (exStore1 1 5 False ! 0) [(0, [5])] = Inr (getb (exStore1 1 5 False ! 0))"
    by simp
  moreover from r(2) alpha y have "vvPlus [(0, [0])] (vvScale (1 / 2) [(0, [10])]) = Inr [(0, [5])]" by simp
  moreover from r(1) alpha ix have "computeStepSize (exStore1 1 5 False) [0] [(0, [0])] [(0, [10])] = Inr (1 / 2, 0)" by simp
  ultimately show ?thesis using len i ok pos struct rat by simp
qed

text \<open>
  The claim as stated fails where the cap applies: with \<open>x = 0\<close>, \<open>p = 1\<close> and the single
  inactive constraint \<open>x \<le> 5\<close>, the returned step length is \<open>1\<close> and \<open>a\<^sup>T (x + \<alpha> p) = 1\<close>.
\<close>

theorem computeStepSize_ratio_test_counterexample:
  "\<not> active (exStore1 1 5 False ! 0)
   \<and> dotProductRow (exStore1 1 5 False ! 0) [(0, [1])] = Inr 1
   \<and> computeStepSize (exStore1 1 5 False) [0] [(0, [0])] [(0, [1])] = Inr (1, - 1)
   \<and> vvPlus [(0, [0])] (vvScale 1 [(0, [1])]) = Inr [(0, [1])]
   \<and> dotProductRow (exStore1 1 5 False ! 0) [(0, [1])] \<noteq> Inr (getb (exStore1 1 5 False ! 0))"
  by (simp add: computeStepSize_def vvPlus_def vvScale_def vvCombine_def)

section \<open>identifyActiveConstraints: building the working set\<close>

lemma error_Inr: "error f x = Inr v \<longleftrightarrow> rowOk f x \<and> v = aT f x - getb f"
  by (cases "dotProductRow f x") (auto simp: error_def rowOk_def aT_def)

lemma upt_shift: "[n ..< Suc (n + k)] = n # [Suc n ..< Suc (n + k)]"
  by (rule upt_conv_Cons) simp

lemma exFactor_upd [simp]: "(exFactor a bound dk flag)\<lparr>active := g\<rparr> = exFactor a bound dk g"
  by (simp add: exFactor_def)

lemma activeLoop_cold:
  assumes "\<forall>f\<in>set fs. rowOk f x \<and> aT f x - getb f \<le> 0"
  shows "activeLoop h ws fs x d False
           = Inr (h @ copies (coldFlag x) fs, ws @ [length h ..< length h + length fs])"
  using assms
proof (induction fs arbitrary: h ws)
  case Nil
  then show ?case by (simp add: copies_def)
next
  case (Cons f fs)
  have e: "error f x = Inr (aT f x - getb f)" and le: "\<not> aT f x - getb f > 0"
    using Cons.prems by (simp_all add: error_Inr)
  have rest: "\<forall>f\<in>set fs. rowOk f x \<and> aT f x - getb f \<le> 0" using Cons.prems by simp
  have step: "activeLoop h ws (f # fs) x d False
        = activeLoop (h @ [f\<lparr>active := coldFlag x f\<rparr>]) (ws @ [length h]) fs x d False"
    using e le by (simp add: coldFlag_def)
  show ?case
    unfolding step Cons.IH[OF rest]
    by (simp add: copies_def upt_shift del: upt_Suc)
qed

lemma activeLoop_warm:
  assumes "d \<noteq> []"
  shows "activeLoop h ws fs x d True
           = Inr (h @ copies (warmFlag d) fs, ws @ [length h ..< length h + length fs])"
proof (induction fs arbitrary: h ws)
  case Nil
  then show ?case by (simp add: copies_def)
next
  case (Cons f fs)
  have step: "activeLoop h ws (f # fs) x d True
        = activeLoop (h @ [f\<lparr>active := warmFlag d f\<rparr>]) (ws @ [length h]) fs x d True"
    using assms by (simp add: warmFlag_def vvSize_def)
  show ?case
    unfolding step Cons.IH
    by (simp add: copies_def upt_shift del: upt_Suc)
qed

lemma activeLoop_empty_duals:
  "activeLoop h ws fs x [] True = activeLoop h ws fs x d False"
  by (induction fs arbitrary: h ws) (simp_all add: vvExists_def vvSize_def split: sum.splits)

lemma activeLoop_infeasible:
  assumes "\<forall>f\<in>set fs. rowOk f x" and "\<exists>f\<in>set fs. 0 < aT f x - getb f"
  shows "activeLoop h ws fs x d False = Inl InfeasibleInitialValues"
  using assms
proof (induction fs arbitrary: h ws)
  case Nil
  then show ?case by simp
next
  case (Cons f fs)
  have e: "error f x = Inr (aT f x - getb f)" using Cons.prems(1) by (simp add: error_Inr)
  show ?case
  proof (cases "0 < aT f x - getb f")
    case True
    with e show ?thesis by simp
  next
    case False
    with Cons.prems have "\<forall>f\<in>set fs. rowOk f x" "\<exists>f\<in>set fs. 0 < aT f x - getb f" by auto
    from Cons.IH[OF this] e False show ?thesis by simp
  qed
qed

lemma factors_fresh:
  "factors (h @ fs) [length h ..< length h + length fs] = fs"
  by (rule nth_equalityI) (simp_all add: factors_def nth_append)

lemma exSolver_sel [simp]:
  "inequalities (exSolver c a bound) = [exFactor a bound 2 False]"
  by (simp add: exSolver_def)

lemma exFactor_error [simp]: "error (exFactor a bound dk flag) [(0, [v])] = Inr (a * v - bound)"
  by (simp add: error_def)

text \<open>
  Claim C7. In a cold start (no warm start) from a point where every inequality's violation
  is defined and none is strictly positive, \<^verbatim>\<open>identifyActiveConstraints\<close> returns a working
  set with one fresh copy per inequality, in the same order; the copy of a constraint with
  violation \<open>v\<close> is active when \<open>\<bar>v\<bar> < 10\<^sup>-\<^sup>7\<close> and inactive when \<open>v \<le> - 10\<^sup>-\<^sup>7\<close>.
\<close>

theorem identifyActiveConstraints_cold_flags:
  assumes "\<forall>f\<in>set ineqs. \<exists>v. error f x = Inr v \<and> v \<le> 0"
  shows "\<exists>h' ws. identifyActiveConstraints h ineqs x d False = Inr (h', ws)
           \<and> length ws = length ineqs
           \<and> (\<forall>i<length ineqs. \<forall>v. error (ineqs ! i) x = Inr v \<longrightarrow>
                 h' ! (ws ! i) = (ineqs ! i)\<lparr>active := \<bar>v\<bar> < 1 / 10 ^ 7\<rparr>
                 \<and> (\<bar>v\<bar> < 1 / 10 ^ 7 \<longrightarrow> active (h' ! (ws ! i)))
                 \<and> (v \<le> - (1 / 10 ^ 7) \<longrightarrow> \<not> active (h' ! (ws ! i))))"
proof -
  have pre: "\<forall>f\<in>set ineqs. rowOk f x \<and> aT f x - getb f \<le> 0"
    using assms by (auto simp: error_Inr)
  let ?h' = "h @ copies (coldFlag x) ineqs"
  let ?ws = "[length h ..< length h + length ineqs]"
  have r: "identifyActiveConstraints h ineqs x d False = Inr (?h', ?ws)"
    unfolding identifyActiveConstraints_def using activeLoop_cold[OF pre, of h "[]" d] by simp
  have nth: "?h' ! (?ws ! i) = (ineqs ! i)\<lparr>active := coldFlag x (ineqs ! i)\<rparr>" if "i < length ineqs" for i
    using that by (simp add: copies_def nth_append)
  have "\<forall>i<length ineqs. \<forall>v. error (ineqs ! i) x = Inr v \<longrightarrow>
                 ?h' ! (?ws ! i) = (ineqs ! i)\<lparr>active := \<bar>v\<bar> < 1 / 10 ^ 7\<rparr>
                 \<and> (\<bar>v\<bar> < 1 / 10 ^ 7 \<longrightarrow> active (?h' ! (?ws ! i)))
                 \<and> (v \<le> - (1 / 10 ^ 7) \<longrightarrow> \<not> active (?h' ! (?ws ! i)))"
  proof (intro allI impI)
    fix i v assume i: "i < length ineqs" and v: "error (ineqs ! i) x = Inr v"
    from v have cf: "coldFlag x (ineqs ! i) = (\<bar>v\<bar> < 1 / 10 ^ 7)"
      by (simp add: error_Inr coldFlag_def tol7_def)
    show "?h' ! (?ws ! i) = (ineqs ! i)\<lparr>active := \<bar>v\<bar> < 1 / 10 ^ 7\<rparr>
                 \<and> (\<bar>v\<bar> < 1 / 10 ^ 7 \<longrightarrow> active (?h' ! (?ws ! i)))
                 \<and> (v \<le> - (1 / 10 ^ 7) \<longrightarrow> \<not> active (?h' ! (?ws ! i)))"
      unfolding nth[OF i] cf by auto
  qed
  with r show ?thesis by (intro exI[of _ ?h'] exI[of _ ?ws]) simp
qed

theorem identifyActiveConstraints_cold_flags_witness:
  "error (exFactor 1 5 1 False) [(0, [5])] = Inr 0 \<and> error (exFactor 1 8 2 True) [(0, [5])] = Inr (- 3)
   \<and> identifyActiveConstraints [] [exFactor 1 5 1 False, exFactor 1 8 2 True] [(0, [5])] [] False
       = Inr ([exFactor 1 5 1 True, exFactor 1 8 2 False], [0, 1])"
proof -
  let ?I = "[exFactor 1 5 1 False, exFactor 1 8 2 True]"
  have a: "\<forall>f\<in>set ?I. \<exists>v. error f [(0, [5])] = Inr v \<and> v \<le> 0" by simp
  from identifyActiveConstraints_cold_flags[OF a, of "[]" "[]"] obtain h' ws where
    r: "identifyActiveConstraints [] ?I [(0, [5])] [] False = Inr (h', ws)" by blast
  have "identifyActiveConstraints [] ?I [(0, [5])] [] False
       = Inr ([exFactor 1 5 1 True, exFactor 1 8 2 False], [0, 1])"
    by (simp add: identifyActiveConstraints_def tol7_def)
  with r show ?thesis by simp
qed

text \<open>
  Claim C2. Without warm start, if every inequality's violation at the initial point is
  defined and some violation is strictly positive, working-set construction raises
  \<^verbatim>\<open>InfeasibleInitialValues\<close>, and so does \<^verbatim>\<open>optimize\<close>, whatever the linear solves of the
  solver are: no iteration runs and nothing is repaired. The same holds when warm start is
  requested with empty duals.
\<close>

theorem optimize_infeasible_initial_values:
  assumes "\<forall>f\<in>set (inequalities S). \<exists>v. error f x = Inr v"
    and "\<exists>f\<in>set (inequalities S). \<exists>v. error f x = Inr v \<and> 0 < v"
  shows "identifyActiveConstraints h (inequalities S) x d False = Inl InfeasibleInitialValues
         \<and> optimizeState S h x d False = Some (Inl InfeasibleInitialValues)
         \<and> optimize S h x d False = Some (Inl InfeasibleInitialValues)
         \<and> optimize S h x [] True = Some (Inl InfeasibleInitialValues)"
proof -
  have a: "\<forall>f\<in>set (inequalities S). rowOk f x" using assms(1) by (auto simp: error_Inr)
  have b: "\<exists>f\<in>set (inequalities S). 0 < aT f x - getb f" using assms(2) by (auto simp: error_Inr)
  have c: "identifyActiveConstraints h (inequalities S) x d False = Inl InfeasibleInitialValues" for d
    unfolding identifyActiveConstraints_def using activeLoop_infeasible[OF a b] .
  have "identifyActiveConstraints h (inequalities S) x [] True = Inl InfeasibleInitialValues"
    unfolding identifyActiveConstraints_def activeLoop_empty_duals[of _ _ _ _ "[]"]
    using activeLoop_infeasible[OF a b] .
  with c show ?thesis by (simp add: optimize_def optimizeState_def)
qed

theorem optimize_infeasible_initial_values_witness:
  "error (exFactor 1 0 2 False) [(0, [1])] = Inr 1 \<and> (0::real) < 1
   \<and> identifyActiveConstraints [] (inequalities (exSolver 0 1 0)) [(0, [1])] [] False = Inl InfeasibleInitialValues
   \<and> optimize (exSolver 0 1 0) [] [(0, [1])] [] False = Some (Inl InfeasibleInitialValues)"
proof -
  have a: "\<forall>f\<in>set (inequalities (exSolver 0 1 0)). \<exists>v. error f [(0, [1])] = Inr v" by simp
  have b: "\<exists>f\<in>set (inequalities (exSolver 0 1 0)). \<exists>v. error f [(0, [1])] = Inr v \<and> 0 < v" by simp
  from optimize_infeasible_initial_values[OF a b, of "[]" "[]"] show ?thesis by simp
qed

text \<open>
  Claim C9. With the warm-start flag set and an empty duals container, working-set
  construction is the cold-start construction (which never reads the duals), and so is the
  whole of \<^verbatim>\<open>optimize\<close>; in particular \<^verbatim>\<open>InfeasibleInitialValues\<close> is raised for the
  constraint \<open>x \<le> 0\<close> at the initial point \<open>x = 1\<close>.
\<close>

theorem warm_start_empty_duals_is_cold_start:
  "identifyActiveConstraints h ineqs x [] True = identifyActiveConstraints h ineqs x d False
   \<and> optimize S h x [] True = optimize S h x [] False
   \<and> optimize (exSolver 0 1 0) [] [(0, [1])] [] True = Some (Inl InfeasibleInitialValues)"
proof -
  have a: "\<And>h ineqs x d. identifyActiveConstraints h ineqs x [] True = identifyActiveConstraints h ineqs x d False"
    unfolding identifyActiveConstraints_def by (rule activeLoop_empty_duals)
  have b: "optimize S h x [] True = optimize S h x [] False"
    unfolding optimize_def optimizeState_def a[of _ _ _ "[]"] ..
  have c: "optimize (exSolver 0 1 0) [] [(0, [1])] [] True = Some (Inl InfeasibleInitialValues)"
    unfolding optimize_def optimizeState_def a[of _ _ _ "[]"]
    by (simp add: identifyActiveConstraints_def)
  from a b c show ?thesis by blast
qed

section \<open>iterate: dropping the leaving constraint\<close>

lemma leavingLoop_result:
  "leavingLoop h lam ws n w m = Inr r \<Longrightarrow>
     r = w \<or> (\<exists>i<length ws. r = toInt (n + i) \<and> active (h ! (ws ! i)))"
proof (induction ws arbitrary: n w m)
  case Nil
  then show ?case by simp
next
  case (Cons a ws)
  from Cons.prems obtain n' w' m' where
    rec: "leavingLoop h lam ws (Suc n) w' m' = Inr r"
    and w': "w' = w \<or> (w' = toInt n \<and> active (h ! a))"
    by (auto split: if_splits sum.splits list.splits)
  from Cons.IH[OF rec] have "r = w' \<or> (\<exists>i<length ws. r = toInt (Suc n + i) \<and> active (h ! (ws ! i)))" .
  then show ?case
  proof
    assume "r = w'"
    with w' have "r = w \<or> (0 < length (a # ws) \<and> r = toInt (n + 0) \<and> active (h ! ((a # ws) ! 0)))"
      by auto
    then show ?thesis by blast
  next
    assume "\<exists>i<length ws. r = toInt (Suc n + i) \<and> active (h ! (ws ! i))"
    then obtain i where "i < length ws" "r = toInt (Suc n + i)" "active (h ! (ws ! i))" by blast
    then have "Suc i < length (a # ws) \<and> r = toInt (n + Suc i) \<and> active (h ! ((a # ws) ! Suc i))"
      by simp
    then show ?thesis by blast
  qed
qed

lemma identifyLeavingConstraint_index:
  assumes "identifyLeavingConstraint h ws lam = Inr l" "0 \<le> l" "length ws < 2 ^ 31"
  shows "nat l < length ws \<and> active (h ! (ws ! nat l))"
proof -
  from leavingLoop_result[OF assms(1)[unfolded identifyLeavingConstraint_def]] assms(2)
  obtain i where i: "i < length ws" "l = toInt (0 + i)" "active (h ! (ws ! i))" by auto
  from i(1) assms(3) have "toInt (0 + i) = int i" by (simp add: toInt_id)
  with i show ?thesis by simp
qed

lemma setActive_nth:
  "setActive h a' flag ! a = (if a = a' \<and> a' < length h then (h ! a)\<lparr>active := flag\<rparr> else h ! a)"
  by (cases "a' < length h") (auto simp: setActive_def nth_list_update list_update_beyond)

lemma factors_setActive:
  assumes "distinct ws" "i < length ws" "\<forall>a\<in>set ws. a < length h"
  shows "factors (setActive h (ws ! i) flag) ws = (factors h ws)[i := (factors h ws ! i)\<lparr>active := flag\<rparr>]"
proof (rule nth_equalityI)
  show "length (factors (setActive h (ws ! i) flag) ws)
          = length ((factors h ws)[i := (factors h ws ! i)\<lparr>active := flag\<rparr>])"
    by (simp add: factors_def)
next
  fix j assume "j < length (factors (setActive h (ws ! i) flag) ws)"
  then have j: "j < length ws" by (simp add: factors_def)
  have eq: "(ws ! j = ws ! i) = (j = i)"
    using assms(1,2) j by (simp add: nth_eq_iff_index_eq)
  have valid: "ws ! i < length h" using assms(2,3) by simp
  show "factors (setActive h (ws ! i) flag) ws ! j
          = (factors h ws)[i := (factors h ws ! i)\<lparr>active := flag\<rparr>] ! j"
    using j assms(2) eq valid by (simp add: factors_def setActive_nth nth_list_update)
qed


lemma exSolver_solve [simp]:
  "optimizeWorkingGraph (exSolver c a bound) fs = (if fs = [] then [(0, [c])] else [(0, [bound / a])])"
  by (simp add: exSolver_def)

lemma exSolver_dual [simp]:
  "optimizeDualGraph (exSolver c a bound) fs [(k, [x])]
     = (if filter active fs = [] then [] else [(2, [(x - c) / a])])"
  by (simp add: exSolver_def)

lemma exState_sel [simp]:
  "values (exState x ws) = [(0, [x])]" "duals (exState x ws) = []" "workingSet (exState x ws) = ws"
  "converged (exState x ws) = False" "iterations (exState x ws) = 0"
  by (simp_all add: exState_def)

lemma factors_exStore1 [simp]: "factors (exStore1 a bound flag) [0] = [exFactor a bound 2 flag]"
  by (simp add: factors_def)

lemma setActive_exStore1 [simp]: "setActive (exStore1 a bound flag) 0 g = exStore1 a bound g"
  by (simp add: setActive_def exStore1_def)

lemma vvEquals_single [simp]: "vvEquals [(k, [u])] [(k', [v])] tol = (k = k' \<and> \<not> \<bar>u - v\<bar> > tol)"
  by (simp add: vvEquals_def equal_with_abs_tol_def)

lemma ex6_solve: "solveWithCurrentWorkingSet (exSolver 0 1 5) (exStore1 1 5 True) [0] = [(0, [5])]"
  by (simp add: solveWithCurrentWorkingSet_def)

lemma ex6_dual: "buildDualGraphOptimize (exSolver 0 1 5) (exStore1 1 5 True) [0] [(0, [5])] = [(2, [5])]"
  by (simp add: buildDualGraphOptimize_def)

lemma ex6_leaving: "identifyLeavingConstraint (exStore1 1 5 True) [0] [(2, [5])] = Inr 0"
  by (simp add: identifyLeavingConstraint_def vvAt_def toInt_def)



text \<open>
  Claim C8, evaluated. The state \<open>exState 5 [0]\<close> holds the working set \<open>[0]\<close>, whose
  only constraint \<open>x \<le> 5\<close> is active in the store. The call of \<^verbatim>\<open>iterate\<close> returns a store in
  which that same object is inactive: the working set of the input state, read after the
  call, has changed. A second call on the same state therefore returns a different result.
\<close>

theorem iterate_mutates_input_working_set:
  "iterate (exSolver 0 1 5) (exStore1 1 5 True) (exState 5 [0])
     = Inr (exStore1 1 5 False,
            \<lparr>values = [(0, [5])], duals = [(2, [5])], workingSet = [0], converged = False,
             iterations = 1\<rparr>)
   \<and> factors (exStore1 1 5 True) (workingSet (exState 5 [0])) = [exFactor 1 5 2 True]
   \<and> factors (exStore1 1 5 False) (workingSet (exState 5 [0])) = [exFactor 1 5 2 False]
   \<and> iterate (exSolver 0 1 5) (exStore1 1 5 False) (exState 5 [0])
     = Inr (exStore1 1 5 False,
            \<lparr>values = [(0, [0])], duals = [], workingSet = [0], converged = False,
             iterations = 1\<rparr>)"
  by (simp add: iterate_def Let_def ex6_solve ex6_dual ex6_leaving tol7_def wsAt_def
      solveWithCurrentWorkingSet_def vvMinus_def vvPlus_def vvCombine_def vvScale_def
      computeStepSize_def)

section \<open>iterate and feasibility\<close>

lemma dotProductRow_cong: "row f' = row f \<Longrightarrow> dotProductRow f' x = dotProductRow f x"
  by (simp add: dotProductRow_def)

lemma setActive_row [simp]: "row (setActive h a' flag ! a) = row (h ! a)"
  by (simp add: setActive_nth)

lemma setActive_getb [simp]: "getb (setActive h a' flag ! a) = getb (h ! a)"
  by (simp add: setActive_nth)

lemma setActive_active:
  "active (setActive h a' flag ! a) = (if a = a' \<and> a' < length h then flag else active (h ! a))"
  by (simp add: setActive_nth)

lemma hasSameStructure_vvCombine:
  "hasSameStructure n x \<Longrightarrow> hasSameStructure x (vvCombine f n x)"
  by (induction n x rule: hasSameStructure.induct) (simp_all add: vvCombine_def)

lemma iterate_noprogress_cases:
  assumes "vvEquals (solveWithCurrentWorkingSet S h (workingSet s)) (values s) tol7"
    and "iterate S h s = Inr (h', s')"
  shows "values s' = solveWithCurrentWorkingSet S h (workingSet s)
         \<and> workingSet s' = workingSet s
         \<and> (h' = h \<or> (\<exists>a. h' = setActive h a False))"
  using assms by (auto simp: iterate_def Let_def split: sum.splits if_splits)

lemma iterate_progress_cases:
  assumes "\<not> vvEquals (solveWithCurrentWorkingSet S h (workingSet s)) (values s) tol7"
    and "iterate S h s = Inr (h', s')"
  shows "\<exists>alpha ix.
           hasSameStructure (solveWithCurrentWorkingSet S h (workingSet s)) (values s)
         \<and> computeStepSize h (workingSet s) (values s)
              (vvCombine (-) (solveWithCurrentWorkingSet S h (workingSet s)) (values s)) = Inr (alpha, ix)
         \<and> vvPlus (values s)
              (vvScale alpha (vvCombine (-) (solveWithCurrentWorkingSet S h (workingSet s)) (values s)))
             = Inr (values s')
         \<and> workingSet s' = workingSet s
         \<and> ((ix < 0 \<and> h' = h) \<or> (0 \<le> ix \<and> h' = setActive h (workingSet s ! nat ix) True))"
  using assms
  by (auto simp: iterate_def Let_def vvMinus_def wsAt_def split: sum.splits if_splits prod.splits)

lemma stepPost_nonneg:
  assumes "stepPost h xk p ws 0 1 (- 1) alpha ix"
    and "\<forall>a\<in>set ws. \<not> active (h ! a) \<longrightarrow> aT (h ! a) xk \<le> getb (h ! a)"
  shows "0 \<le> alpha"
proof -
  from assms(1) have "(alpha = 1 \<and> ix = - 1)
          \<or> (\<exists>i<length ws. ix = toInt (0 + i) \<and> \<not> active (h ! (ws ! i))
                \<and> 0 < aT (h ! (ws ! i)) p \<and> alpha = ratio (h ! (ws ! i)) xk p \<and> alpha < 1)"
    by (simp add: stepPost_def)
  then show ?thesis
  proof
    assume "alpha = 1 \<and> ix = - 1" then show ?thesis by simp
  next
    assume "\<exists>i<length ws. ix = toInt (0 + i) \<and> \<not> active (h ! (ws ! i))
                \<and> 0 < aT (h ! (ws ! i)) p \<and> alpha = ratio (h ! (ws ! i)) xk p \<and> alpha < 1"
    then obtain i where i: "i < length ws" "\<not> active (h ! (ws ! i))" "0 < aT (h ! (ws ! i)) p"
      "alpha = ratio (h ! (ws ! i)) xk p" by blast
    from i(1,2) assms(2) have "aT (h ! (ws ! i)) xk \<le> getb (h ! (ws ! i))" by simp
    with i(3,4) show ?thesis unfolding ratio_def by simp
  qed
qed

lemma stepPost_blocking:
  assumes "stepPost h xk p ws 0 1 (- 1) alpha ix" and "0 \<le> ix" and "length ws < 2 ^ 31"
  shows "nat ix < length ws \<and> \<not> active (h ! (ws ! nat ix)) \<and> 0 < aT (h ! (ws ! nat ix)) p
         \<and> alpha = ratio (h ! (ws ! nat ix)) xk p"
proof -
  from assms(1,2) obtain i where i: "i < length ws" "ix = toInt (0 + i)" "\<not> active (h ! (ws ! i))"
      "0 < aT (h ! (ws ! i)) p" "alpha = ratio (h ! (ws ! i)) xk p"
    by (auto simp: stepPost_def)
  from i(1) assms(3) have "toInt (0 + i) = int i" by (simp add: toInt_id)
  with i show ?thesis by simp
qed

lemma vvEquals_map_of:
  "vvEquals n x tol \<Longrightarrow> map_of n k = Some u \<Longrightarrow> map_of x k = Some v \<Longrightarrow>
     equal_with_abs_tol u v tol"
  unfolding vvEquals_def
  by (induction n x rule: list_all2_induct) (auto split: if_splits)

lemma dot_diff_bound:
  "equal_with_abs_tol u v tol \<Longrightarrow> length a = length u \<Longrightarrow>
     \<bar>sum_list (map2 (*) a u) - sum_list (map2 (*) a v)\<bar> \<le> tol * sum_list (map abs a)"
  unfolding equal_with_abs_tol_def
proof (induction u v arbitrary: a rule: list_all2_induct)
  case Nil
  then show ?case by simp
next
  case (Cons u0 u v0 v)
  from Cons.prems obtain a0 as where a: "a = a0 # as" "length as = length u"
    by (cases a) auto
  have "\<bar>a0 * u0 - a0 * v0\<bar> = \<bar>a0\<bar> * \<bar>u0 - v0\<bar>"
    by (simp add: abs_mult flip: right_diff_distrib)
  also have "\<dots> \<le> \<bar>a0\<bar> * tol"
    using Cons.hyps(1) by (intro mult_left_mono) simp_all
  finally have h0: "\<bar>a0 * u0 - a0 * v0\<bar> \<le> tol * \<bar>a0\<bar>" by (simp add: mult.commute)
  have ht: "\<bar>sum_list (map2 (*) as u) - sum_list (map2 (*) as v)\<bar> \<le> tol * sum_list (map abs as)"
    using Cons.IH[OF a(2)] .
  have "\<bar>(a0 * u0 + sum_list (map2 (*) as u)) - (a0 * v0 + sum_list (map2 (*) as v))\<bar>
          \<le> \<bar>a0 * u0 - a0 * v0\<bar> + \<bar>sum_list (map2 (*) as u) - sum_list (map2 (*) as v)\<bar>"
    by simp
  also have "\<dots> \<le> tol * \<bar>a0\<bar> + tol * sum_list (map abs as)"
    using h0 ht by simp
  finally show ?case using a(1) by (simp add: algebra_simps)
qed

lemma rowDot_diff_bound:
  assumes "vvEquals n x tol"
  shows "rowDot r n = Inr u \<Longrightarrow> rowDot r x = Inr v \<Longrightarrow> \<bar>u - v\<bar> \<le> tol * rowNorm1 r"
proof (induction r arbitrary: u v)
  case Nil
  then show ?case by simp
next
  case (Cons kv ts)
  obtain k aj where kv: "kv = (k, aj)" by (cases kv)
  from Cons.prems(1) obtain nk u' where
    n: "map_of n k = Some nk" "length aj = length nk" "rowDot ts n = Inr u'"
       "u = sum_list (map2 (*) aj nk) + u'"
    unfolding kv rowDot_Cons_Inr by blast
  from Cons.prems(2) obtain xk v' where
    x: "map_of x k = Some xk" "length aj = length xk" "rowDot ts x = Inr v'"
       "v = sum_list (map2 (*) aj xk) + v'"
    unfolding kv rowDot_Cons_Inr by blast
  have e: "equal_with_abs_tol nk xk tol" using vvEquals_map_of[OF assms n(1) x(1)] .
  have h0: "\<bar>sum_list (map2 (*) aj nk) - sum_list (map2 (*) aj xk)\<bar> \<le> tol * sum_list (map abs aj)"
    using dot_diff_bound[OF e n(2)] .
  have ht: "\<bar>u' - v'\<bar> \<le> tol * rowNorm1 ts" using Cons.IH[OF n(3) x(3)] .
  have "\<bar>u - v\<bar> \<le> \<bar>sum_list (map2 (*) aj nk) - sum_list (map2 (*) aj xk)\<bar> + \<bar>u' - v'\<bar>"
    unfolding n(4) x(4) by simp
  also have "\<dots> \<le> tol * sum_list (map abs aj) + tol * rowNorm1 ts"
    using h0 ht by simp
  finally show ?case unfolding kv by (simp add: algebra_simps)
qed

lemma noprogress_activeExact:
  assumes sol: "solvedExact h ws nv"
    and h': "h' = h \<or> (\<exists>a. h' = setActive h a False)"
  shows "activeExact h' ws nv"
  unfolding activeExact_def list_all_iff
proof (intro ballI impI)
  fix a assume a: "a \<in> set ws" and act': "active (h' ! a)"
  from h' act' have act: "active (h ! a)"
    by (auto simp: setActive_active split: if_splits)
  from h' have rw: "row (h' ! a) = row (h ! a)" and gb: "getb (h' ! a) = getb (h ! a)" by auto
  from sol a act have "rowOk (h ! a) nv" "aT (h ! a) nv = getb (h ! a)"
    by (simp_all add: solvedExact_def list_all_iff)
  then have "dotProductRow (h ! a) nv = Inr (getb (h ! a))" using rowOk_dot by fastforce
  then show "dotProductRow (h' ! a) nv = Inr (getb (h' ! a))"
    using dotProductRow_cong[OF rw] gb by simp
qed

subsection \<open>Unfolding the loop of optimize\<close>

lemma optimizeLoop_done: "converged s \<Longrightarrow> optimizeLoop S h s = Some (Inr (h, s))"
  by (subst optimizeLoop.simps) simp

lemma optimizeLoop_step:
  "\<not> converged s \<Longrightarrow> iterate S h s = Inr (h', s') \<Longrightarrow> optimizeLoop S h s = optimizeLoop S h' s'"
  by (subst optimizeLoop.simps) simp

lemma optimizeLoop_throw:
  "\<not> converged s \<Longrightarrow> iterate S h s = Inl e \<Longrightarrow> optimizeLoop S h s = Some (Inl e)"
  by (subst optimizeLoop.simps) simp

subsection \<open>A step keeps every inequality\<close>

lemma satisfiesInequalities_iff:
  "satisfiesInequalities h ws x \<longleftrightarrow> (\<forall>a\<in>set ws. rowOk (h ! a) x \<and> aT (h ! a) x \<le> getb (h ! a))"
proof -
  have "(case dotProductRow f x of Inl _ \<Rightarrow> False | Inr aTx \<Rightarrow> aTx \<le> getb f)
          = (rowOk f x \<and> aT f x \<le> getb f)" for f
    by (cases "dotProductRow f x") (simp_all add: rowOk_def aT_def)
  then show ?thesis by (simp add: satisfiesInequalities_def list_all_iff)
qed

lemma step_bound:
  assumes x: "aT f x \<le> getb f"
    and n: "active f \<longrightarrow> aT f n = getb f"
    and alpha: "0 \<le> alpha" "alpha \<le> 1"
    and le: "\<not> active f \<and> 0 < aT f n - aT f x \<longrightarrow> alpha \<le> (getb f - aT f x) / (aT f n - aT f x)"
  shows "aT f x + alpha * (aT f n - aT f x) \<le> getb f"
proof (cases "active f")
  case True
  with n have d: "aT f n - aT f x = getb f - aT f x" by simp
  have "alpha * (getb f - aT f x) \<le> 1 * (getb f - aT f x)"
    using alpha(2) x by (intro mult_right_mono) simp_all
  with d show ?thesis by simp
next
  case False
  show ?thesis
  proof (cases "0 < aT f n - aT f x")
    case True
    with False le have "alpha \<le> (getb f - aT f x) / (aT f n - aT f x)" by simp
    with True have "alpha * (aT f n - aT f x) \<le> getb f - aT f x" by (simp add: pos_le_divide_eq)
    then show ?thesis by simp
  next
    case False
    then have "alpha * (aT f n - aT f x) \<le> 0" using alpha(1) by (simp add: mult_nonneg_nonpos)
    with x show ?thesis by simp
  qed
qed

lemma step_exact:
  assumes n: "active f \<longrightarrow> aT f n = getb f"
    and c: "(active f \<and> aT f x = getb f)
            \<or> (0 < aT f n - aT f x \<and> alpha = (getb f - aT f x) / (aT f n - aT f x))"
  shows "aT f x + alpha * (aT f n - aT f x) = getb f"
  using c
proof
  assume "active f \<and> aT f x = getb f"
  with n show ?thesis by simp
next
  assume "0 < aT f n - aT f x \<and> alpha = (getb f - aT f x) / (aT f n - aT f x)"
  then show ?thesis by simp
qed

lemma noprogress_feasibleWithin:
  assumes ineq: "satisfiesInequalities h ws x"
    and sol: "solvedExact h ws nv"
    and eq: "vvEquals nv x tol"
    and h': "h' = h \<or> (\<exists>a. h' = setActive h a False)"
  shows "feasibleWithin h' ws nv tol"
  unfolding feasibleWithin_def list_all_iff
proof
  fix a assume a: "a \<in> set ws"
  from h' have rw: "row (h' ! a) = row (h ! a)" and gb: "getb (h' ! a) = getb (h ! a)" by auto
  from ineq a have x: "rowOk (h ! a) x" "aT (h ! a) x \<le> getb (h ! a)"
    by (simp_all add: satisfiesInequalities_iff)
  from sol a have n: "rowOk (h ! a) nv" by (simp add: solvedExact_def list_all_iff)
  have dn: "rowDot (row (h ! a)) nv = Inr (aT (h ! a) nv)"
    and dx: "rowDot (row (h ! a)) x = Inr (aT (h ! a) x)"
    using n x(1) rowOk_dot by (simp_all add: dotProductRow_def)
  have "\<bar>aT (h ! a) nv - aT (h ! a) x\<bar> \<le> tol * rowNorm1 (row (h ! a))"
    using rowDot_diff_bound[OF eq dn dx] .
  with x(2) have "aT (h ! a) nv \<le> getb (h ! a) + tol * rowNorm1 (row (h ! a))" by simp
  moreover have "dotProductRow (h' ! a) nv = Inr (aT (h ! a) nv)"
    using dotProductRow_cong[OF rw] n rowOk_dot by simp
  ultimately show "case dotProductRow (h' ! a) nv of Inl x \<Rightarrow> False
          | Inr aTx \<Rightarrow> aTx \<le> getb (h' ! a) + tol * rowNorm1 (row (h' ! a))"
    using rw gb by simp
qed

lemma progress_step:
  assumes ineq: "satisfiesInequalities h ws x"
    and sol: "solvedExact h ws nv"
    and struct: "hasSameStructure nv x"
    and step: "computeStepSize h ws x (vvCombine (-) nv x) = Inr (alpha, ix)"
    and plus: "vvPlus x (vvScale alpha (vvCombine (-) nv x)) = Inr y"
    and h': "(ix < 0 \<and> h' = h) \<or> (0 \<le> ix \<and> h' = setActive h (ws ! nat ix) True)"
  shows "satisfiesInequalities h' ws y"
    and "length ws < 2 ^ 31 \<Longrightarrow> a \<in> set ws \<Longrightarrow> active (h' ! a) \<Longrightarrow>
           (active (h ! a) \<longrightarrow> aT (h ! a) x = getb (h ! a)) \<Longrightarrow>
           dotProductRow (h' ! a) y = Inr (getb (h' ! a))"
proof -
  let ?p = "vvCombine (-) nv x"
  have X: "rowOk (h ! a) x \<and> aT (h ! a) x \<le> getb (h ! a)" if "a \<in> set ws" for a
    using ineq that by (simp add: satisfiesInequalities_iff)
  have N: "rowOk (h ! a) nv \<and> (active (h ! a) \<longrightarrow> aT (h ! a) nv = getb (h ! a))"
    if "a \<in> set ws" for a
    using sol that by (simp add: solvedExact_def list_all_iff)
  have P: "dotProductRow (h ! a) ?p = Inr (aT (h ! a) nv - aT (h ! a) x)" if "a \<in> set ws" for a
    using dotProductRow_minus[OF struct] N[OF that] X[OF that] by blast
  have Pok: "rowOk (h ! a) ?p" and PaT: "aT (h ! a) ?p = aT (h ! a) nv - aT (h ! a) x"
    if "a \<in> set ws" for a
    using P[OF that] by (simp_all add: rowOk_def aT_def)
  have struct': "hasSameStructure x ?p" using hasSameStructure_vvCombine[OF struct] .
  have pre: "\<forall>a\<in>set ws. \<not> active (h ! a) \<longrightarrow> rowOk (h ! a) ?p \<and> rowOk (h ! a) x"
    using Pok X by blast
  from stepLoop_char[OF pre, of 0 1 "- 1"] step
  have post: "stepPost h x ?p ws 0 1 (- 1) alpha ix"
    by (auto simp: computeStepSize_def)
  have nonneg: "0 \<le> alpha"
    using stepPost_nonneg[OF post] X by blast
  have le1: "alpha \<le> 1" using post by (simp add: stepPost_def)
  have le: "alpha \<le> ratio (h ! a) x ?p" if "a \<in> set ws" "\<not> active (h ! a)" "0 < aT (h ! a) ?p" for a
    using post that by (simp add: stepPost_def)
  have Y: "dotProductRow (h ! a) y = Inr (aT (h ! a) x + alpha * (aT (h ! a) nv - aT (h ! a) x))"
    if "a \<in> set ws" for a
  proof -
    from dotProductRow_step[OF struct', of "h ! a" alpha] X[OF that] Pok[OF that]
    obtain y' where "vvPlus x (vvScale alpha ?p) = Inr y'"
      "dotProductRow (h ! a) y' = Inr (aT (h ! a) x + alpha * aT (h ! a) ?p)" by blast
    with plus PaT[OF that] show ?thesis by simp
  qed
  have rw: "row (h' ! a) = row (h ! a)" and gb: "getb (h' ! a) = getb (h ! a)" for a
    using h' by auto
  have Y': "dotProductRow (h' ! a) y = Inr (aT (h ! a) x + alpha * (aT (h ! a) nv - aT (h ! a) x))"
    if "a \<in> set ws" for a
    using Y[OF that] dotProductRow_cong[OF rw] by simp
  show "satisfiesInequalities h' ws y"
    unfolding satisfiesInequalities_def list_all_iff
  proof
    fix a assume a: "a \<in> set ws"
    let ?f = "h ! a"
    have le': "\<not> active ?f \<and> 0 < aT ?f nv - aT ?f x \<longrightarrow>
                 alpha \<le> (getb ?f - aT ?f x) / (aT ?f nv - aT ?f x)"
      using le[OF a] PaT[OF a] by (simp add: ratio_def)
    have "aT ?f x + alpha * (aT ?f nv - aT ?f x) \<le> getb ?f"
      using X[OF a] N[OF a] by (intro step_bound nonneg le1 le') simp_all
    then show "case dotProductRow (h' ! a) y of Inl x \<Rightarrow> False | Inr aTx \<Rightarrow> aTx \<le> getb (h' ! a)"
      using Y'[OF a] gb by simp
  qed
  show "dotProductRow (h' ! a) y = Inr (getb (h' ! a))"
    if len: "length ws < 2 ^ 31" and a: "a \<in> set ws" and act': "active (h' ! a)"
      and was: "active (h ! a) \<longrightarrow> aT (h ! a) x = getb (h ! a)"
  proof -
    let ?f = "h ! a"
    have c: "(active ?f \<and> aT ?f x = getb ?f)
            \<or> (0 < aT ?f nv - aT ?f x \<and> alpha = (getb ?f - aT ?f x) / (aT ?f nv - aT ?f x))"
    proof (cases "active ?f")
      case True with was show ?thesis by simp
    next
      case False
      with act' h' have ix: "0 \<le> ix" and eq: "a = ws ! nat ix"
        by (auto simp: setActive_active split: if_splits)
      from stepPost_blocking[OF post ix len] eq
      have "0 < aT ?f ?p" "alpha = ratio ?f x ?p" by simp_all
      then show ?thesis using PaT[OF a] by (simp add: ratio_def)
    qed
    have "aT ?f x + alpha * (aT ?f nv - aT ?f x) = getb ?f"
      using N[OF a] c by (intro step_exact) simp_all
    then show ?thesis using Y'[OF a] gb by simp
  qed
qed

lemma iterate_step_inequalities:
  assumes ineq: "satisfiesInequalities h (workingSet s) (values s)"
    and sol: "solvedExact h (workingSet s) (solveWithCurrentWorkingSet S h (workingSet s))"
    and ne: "\<not> vvEquals (solveWithCurrentWorkingSet S h (workingSet s)) (values s) tol7"
    and it: "iterate S h s = Inr (h', s')"
  shows "workingSet s' = workingSet s"
    and "satisfiesInequalities h' (workingSet s') (values s')"
    and "length (workingSet s) < 2 ^ 31 \<Longrightarrow> a \<in> set (workingSet s) \<Longrightarrow> active (h' ! a) \<Longrightarrow>
           (active (h ! a) \<longrightarrow> aT (h ! a) (values s) = getb (h ! a)) \<Longrightarrow>
           dotProductRow (h' ! a) (values s') = Inr (getb (h' ! a))"
proof -
  from iterate_progress_cases[OF ne it] obtain alpha ix where
    struct: "hasSameStructure (solveWithCurrentWorkingSet S h (workingSet s)) (values s)"
    and step: "computeStepSize h (workingSet s) (values s)
              (vvCombine (-) (solveWithCurrentWorkingSet S h (workingSet s)) (values s)) = Inr (alpha, ix)"
    and plus: "vvPlus (values s)
              (vvScale alpha (vvCombine (-) (solveWithCurrentWorkingSet S h (workingSet s)) (values s)))
             = Inr (values s')"
    and w: "workingSet s' = workingSet s"
    and h': "(ix < 0 \<and> h' = h) \<or> (0 \<le> ix \<and> h' = setActive h (workingSet s ! nat ix) True)"
    by blast
  show "workingSet s' = workingSet s" by (rule w)
  show "satisfiesInequalities h' (workingSet s') (values s')"
    unfolding w using progress_step(1)[OF ineq sol struct step plus h'] .
  show "dotProductRow (h' ! a) (values s') = Inr (getb (h' ! a))"
    if "length (workingSet s) < 2 ^ 31" "a \<in> set (workingSet s)" "active (h' ! a)"
      "active (h ! a) \<longrightarrow> aT (h ! a) (values s) = getb (h ! a)"
    using progress_step(2)[OF ineq sol struct step plus h' that] .
qed

lemma stepRun_invariant:
  assumes "stepRun S h0 s0 h s"
    and "satisfiesInequalities h0 (workingSet s0) (values s0)"
  shows "satisfiesInequalities h (workingSet s) (values s)
         \<and> workingSet s = workingSet s0
         \<and> optimizeLoop S h0 s0 = optimizeLoop S h s"
  using assms
proof (induction rule: stepRun.induct)
  case start
  then show ?case by simp
next
  case (step h s h' s')
  from step.IH[OF step.prems] have
    ineq: "satisfiesInequalities h (workingSet s) (values s)"
    and w: "workingSet s = workingSet s0"
    and l: "optimizeLoop S h0 s0 = optimizeLoop S h s" by blast+
  from iterate_step_inequalities(1,2)[OF ineq step.hyps(3) step.hyps(4) step.hyps(5)]
  have "workingSet s' = workingSet s" "satisfiesInequalities h' (workingSet s') (values s')"
    by simp_all
  moreover have "optimizeLoop S h s = optimizeLoop S h' s'"
    using optimizeLoop_step[OF step.hyps(2) step.hyps(5)] .
  ultimately show ?case using w l by simp
qed

lemma cold_start_satisfiesInequalities:
  assumes "identifyActiveConstraints h0 ineqs x d False = Inr (h, ws)"
  shows "satisfiesInequalities h ws x"
proof -
  have gen: "activeLoop h0 ws0 fs x d False = Inr (h, ws) \<Longrightarrow>
               satisfiesInequalities h0 ws0 x \<Longrightarrow> (\<forall>a\<in>set ws0. a < length h0) \<Longrightarrow>
               satisfiesInequalities h ws x" for h0 ws0 fs
  proof (induction fs arbitrary: h0 ws0)
    case Nil
    then show ?case by simp
  next
    case (Cons f fs)
    from Cons.prems(1) obtain v where e: "error f x = Inr v" and v: "v \<le> 0"
      and rec: "activeLoop (h0 @ [f\<lparr>active := \<bar>v\<bar> < tol7\<rparr>]) (ws0 @ [length h0]) fs x d False = Inr (h, ws)"
      by (auto split: if_splits sum.splits)
    let ?g = "f\<lparr>active := \<bar>v\<bar> < tol7\<rparr>"
    from e v have g: "rowOk ?g x \<and> aT ?g x \<le> getb ?g"
      by (simp add: error_Inr rowOk_def aT_def dotProductRow_def)
    have "satisfiesInequalities (h0 @ [?g]) (ws0 @ [length h0]) x"
      unfolding satisfiesInequalities_iff
    proof
      fix a assume "a \<in> set (ws0 @ [length h0])"
      then consider "a \<in> set ws0" | "a = length h0" by auto
      then show "rowOk ((h0 @ [?g]) ! a) x \<and> aT ((h0 @ [?g]) ! a) x \<le> getb ((h0 @ [?g]) ! a)"
      proof cases
        case 1
        with Cons.prems(2,3) show ?thesis
          by (simp add: satisfiesInequalities_iff nth_append)
      next
        case 2
        with g show ?thesis by simp
      qed
    qed
    moreover have "\<forall>a\<in>set (ws0 @ [length h0]). a < length (h0 @ [?g])"
      using Cons.prems(3) by auto
    ultimately show ?case using Cons.IH[OF rec] by blast
  qed
  have "satisfiesInequalities h0 [] x" by (simp add: satisfiesInequalities_def)
  with gen[of h0 "[]" ineqs] assms show ?thesis
    by (simp add: identifyActiveConstraints_def)
qed


subsection \<open>Runs of the example problems\<close>

lemma solvedExact_single [simp]:
  "solvedExact (exStore1 a bound flag) [0] [(0, [v])] = (flag \<longrightarrow> a * v = bound)"
  by (simp add: solvedExact_def)

lemma activeExact_single [simp]:
  "activeExact (exStore1 a bound flag) [0] [(0, [v])] = (flag \<longrightarrow> a * v = bound)"
  by (simp add: activeExact_def)

lemma ex1_iterate:
  "iterate (exSolver 10 1 5) (exStore1 1 5 False) (exState 0 [0])
     = Inr (exStore1 1 5 True,
            \<lparr>values = [(0, [5])], duals = [], workingSet = [0], converged = False, iterations = 1\<rparr>)"
  by (simp add: iterate_def Let_def tol7_def wsAt_def solveWithCurrentWorkingSet_def
      vvMinus_def vvPlus_def vvCombine_def vvScale_def computeStepSize_def toInt_def)

lemma exc_iterate:
  "iterate (exSolver (5 + 5 / 10 ^ 8) 1000 5000) (exStore1 1000 5000 False) (exState (5 - 1 / 10 ^ 9) [0])
     = Inr (exStore1 1000 5000 False,
            \<lparr>values = [(0, [5 + 5 / 10 ^ 8])], duals = [], workingSet = [0], converged = True,
             iterations = 1\<rparr>)"
  by (simp add: iterate_def Let_def tol7_def solveWithCurrentWorkingSet_def
      buildDualGraphOptimize_def identifyLeavingConstraint_def)

lemma exc_init:
  "identifyActiveConstraints [] (inequalities (exSolver (5 + 5 / 10 ^ 8) 1000 5000))
      [(0, [5 - 1 / 10 ^ 9])] [] False = Inr (exStore1 1000 5000 False, [0])"
  by (simp add: identifyActiveConstraints_def tol7_def exStore1_def)

lemma exc_optimizeState:
  "optimizeState (exSolver (5 + 5 / 10 ^ 8) 1000 5000) [] [(0, [5 - 1 / 10 ^ 9])] [] False
     = Some (Inr (exStore1 1000 5000 False,
            \<lparr>values = [(0, [5 + 5 / 10 ^ 8])], duals = [], workingSet = [0], converged = True,
             iterations = 1\<rparr>))"
proof -
  have s0: "\<lparr>values = [(0, [5 - 1 / 10 ^ 9])], duals = [], workingSet = [0], converged = False,
             iterations = 0\<rparr> = exState (5 - 1 / 10 ^ 9) [0]"
    by (simp add: exState_def)
  have "optimizeLoop (exSolver (5 + 5 / 10 ^ 8) 1000 5000) (exStore1 1000 5000 False)
          (exState (5 - 1 / 10 ^ 9) [0])
        = Some (Inr (exStore1 1000 5000 False,
            \<lparr>values = [(0, [5 + 5 / 10 ^ 8])], duals = [], workingSet = [0], converged = True,
             iterations = 1\<rparr>))"
    by (subst optimizeLoop_step[OF _ exc_iterate]) (simp_all add: optimizeLoop_done)
  then show ?thesis
    unfolding optimizeState_def exc_init by (simp only: sum.case prod.case s0)
qed

lemma ex3_iterate2:
  "iterate (exSolver 10 1 5) (exStore1 1 5 True)
      \<lparr>values = [(0, [5])], duals = [], workingSet = [0], converged = False, iterations = 1\<rparr>
     = Inr (exStore1 1 5 True,
            \<lparr>values = [(0, [5])], duals = [(2, [- 5])], workingSet = [0], converged = True,
             iterations = 2\<rparr>)"
  by (simp add: iterate_def Let_def tol7_def solveWithCurrentWorkingSet_def
      buildDualGraphOptimize_def identifyLeavingConstraint_def vvAt_def)

lemma satisfiesInequalities_single [simp]:
  "satisfiesInequalities (exStore1 a bound flag) [0] [(0, [v])] = (a * v \<le> bound)"
  by (simp add: satisfiesInequalities_def)

lemma feasibleWithin_single [simp]:
  "feasibleWithin (exStore1 a bound flag) [0] [(0, [v])] eps = (a * v \<le> bound + eps * \<bar>a\<bar>)"
  by (simp add: feasibleWithin_def exFactor_def dotProductRow_def vvAt_def)

lemma exw_init:
  "identifyActiveConstraints [] (inequalities (exSolver 10 1 5)) [(0, [5 - 5 / 10 ^ 8])] [] False
     = Inr (exStore1 1 5 True, [0])"
  by (simp add: identifyActiveConstraints_def tol7_def exStore1_def)

lemma exw_iterate:
  "iterate (exSolver 10 1 5) (exStore1 1 5 True) (exState (5 - 5 / 10 ^ 8) [0])
     = Inr (exStore1 1 5 True,
            \<lparr>values = [(0, [5])], duals = [(2, [- 5])], workingSet = [0], converged = True,
             iterations = 1\<rparr>)"
  by (simp add: iterate_def Let_def tol7_def solveWithCurrentWorkingSet_def
      buildDualGraphOptimize_def identifyLeavingConstraint_def vvAt_def)


lemma exStore2_nth [simp]:
  "exStore2 fx fy ! 0 = exFactor 1 5 2 fx" "exStore2 fx fy ! Suc 0 = exIneqY fy"
  by (simp_all add: exStore2_def)

lemma exIneqY_sel [simp]:
  "row (exIneqY flag) = [(1, [1])]" "getb (exIneqY flag) = 1" "dualKey (exIneqY flag) = 3"
  "active (exIneqY flag) = flag"
  by (simp_all add: exIneqY_def)

lemma ex2_init:
  "identifyActiveConstraints [] (inequalities exSolver2) [(0, [5 - 5 / 10 ^ 8]), (1, [0])] [] False
     = Inr (exStore2 True False, [0, 1])"
  by (simp add: identifyActiveConstraints_def tol7_def exStore2_def exSolver2_def exIneqY_def
      exFactor_def error_def dotProductRow_def vvAt_def)

lemma ex2_iterate:
  "iterate exSolver2 (exStore2 True False) (exState2 (5 - 5 / 10 ^ 8) 0)
     = Inr (exStore2 True True,
            \<lparr>values = [(0, [5 - 25 / 10 ^ 9]), (1, [1])], duals = [], workingSet = [0, 1],
             converged = False, iterations = 1\<rparr>)"
  by (simp add: iterate_def Let_def tol7_def solveWithCurrentWorkingSet_def exSolver2_def
      exState2_def factors_def vvEquals_def equal_with_abs_tol_def vvMinus_def vvPlus_def
      vvCombine_def vvScale_def computeStepSize_def dotProductRow_def vvAt_def toInt_def
      wsAt_def setActive_def exStore2_def exIneqY_def exFactor_def)


section \<open>optimize restarted from its own result\<close>

lemma unflag_eq:
  assumes "unflag f = unflag g"
  shows "g\<lparr>active := active f\<rparr> = f" and "dualKey g = dualKey f"
proof -
  from assms have "row f = row g \<and> getb f = getb g \<and> dualKey f = dualKey g
      \<and> LinearInequality.more f = LinearInequality.more g"
    unfolding unflag_def by (cases f, cases g) simp
  then show "g\<lparr>active := active f\<rparr> = f" and "dualKey g = dualKey f"
    by (cases f, cases g, simp)+
qed

lemma unflag_setActive [simp]: "unflag (setActive h a flag ! a') = unflag (h ! a')"
  by (simp add: setActive_nth unflag_def)

lemma iterate_cases:
  assumes "iterate S h s = Inr (h', s')"
  shows "workingSet s' = workingSet s \<and> (h' = h \<or> (\<exists>a flag. h' = setActive h a flag))"
proof (cases "vvEquals (solveWithCurrentWorkingSet S h (workingSet s)) (values s) tol7")
  case True
  from iterate_noprogress_cases[OF True assms] show ?thesis by blast
next
  case False
  from iterate_progress_cases[OF False assms] show ?thesis by blast
qed

lemma iterate_unflag:
  assumes "iterate S h s = Inr (h', s')"
  shows "map unflag (factors h' (workingSet s')) = map unflag (factors h (workingSet s))"
proof -
  from iterate_cases[OF assms] have w: "workingSet s' = workingSet s"
    and h': "h' = h \<or> (\<exists>a flag. h' = setActive h a flag)" by simp_all
  from h' have "unflag (h' ! a) = unflag (h ! a)" for a by auto
  then show ?thesis unfolding w factors_def by simp
qed

lemma iterate_converged:
  assumes "iterate S h s = Inr (h', s')" "converged s'"
  shows "kktState S h' s'"
  using assms
  by (auto simp: iterate_def Let_def kktState_def split: sum.splits if_splits prod.splits)

lemma optimizeLoop_final:
  assumes "optimizeLoop S h s = Some y"
  shows "\<forall>hf sf. y = Inr (hf, sf) \<longrightarrow>
           converged sf
           \<and> map unflag (factors hf (workingSet sf)) = map unflag (factors h (workingSet s))
           \<and> (converged s \<longrightarrow> hf = h \<and> sf = s)
           \<and> (\<not> converged s \<longrightarrow> kktState S hf sf)"
proof (rule optimizeLoop.raw_induct[where P = "\<lambda>S h s y. \<forall>hf sf. y = Inr (hf, sf) \<longrightarrow>
           converged sf
           \<and> map unflag (factors hf (workingSet sf)) = map unflag (factors h (workingSet s))
           \<and> (converged s \<longrightarrow> hf = h \<and> sf = s)
           \<and> (\<not> converged s \<longrightarrow> kktState S hf sf)", OF _ assms])
  fix loop :: "QPSolver \<Rightarrow> store \<Rightarrow> QPState \<Rightarrow> (exn + store \<times> QPState) option"
  fix S h s y
  assume IH: "\<And>S h s y. loop S h s = Some y \<Longrightarrow> \<forall>hf sf. y = Inr (hf, sf) \<longrightarrow>
           converged sf
           \<and> map unflag (factors hf (workingSet sf)) = map unflag (factors h (workingSet s))
           \<and> (converged s \<longrightarrow> hf = h \<and> sf = s)
           \<and> (\<not> converged s \<longrightarrow> kktState S hf sf)"
    and body: "(if \<not> converged s
      then case iterate S h s of Inl e \<Rightarrow> Some (Inl e)
           | Inr hs \<Rightarrow> loop S (fst hs) (snd hs)
      else Some (Inr (h, s))) = Some y"
  show "\<forall>hf sf. y = Inr (hf, sf) \<longrightarrow>
           converged sf
           \<and> map unflag (factors hf (workingSet sf)) = map unflag (factors h (workingSet s))
           \<and> (converged s \<longrightarrow> hf = h \<and> sf = s)
           \<and> (\<not> converged s \<longrightarrow> kktState S hf sf)"
  proof (cases "converged s")
    case True
    with body show ?thesis by auto
  next
    case False
    show ?thesis
    proof (intro allI impI)
      fix hf sf assume y: "y = Inr (hf, sf)"
      from body False y obtain h1 s1 where
        it: "iterate S h s = Inr (h1, s1)" and rec: "loop S h1 s1 = Some y"
        by (auto split: sum.splits)
      from IH[OF rec] y have
        c: "converged sf"
        and u: "map unflag (factors hf (workingSet sf)) = map unflag (factors h1 (workingSet s1))"
        and same: "converged s1 \<longrightarrow> hf = h1 \<and> sf = s1"
        and kkt: "\<not> converged s1 \<longrightarrow> kktState S hf sf"
        by simp_all
      have k: "kktState S hf sf"
      proof (cases "converged s1")
        case True
        with same have "hf = h1" "sf = s1" by simp_all
        with iterate_converged[OF it True] show ?thesis by simp
      next
        case False
        with kkt show ?thesis by simp
      qed
      from u iterate_unflag[OF it]
      have "map unflag (factors hf (workingSet sf)) = map unflag (factors h (workingSet s))" by simp
      with c k False
      show "converged sf
           \<and> map unflag (factors hf (workingSet sf)) = map unflag (factors h (workingSet s))
           \<and> (converged s \<longrightarrow> hf = h \<and> sf = s)
           \<and> (\<not> converged s \<longrightarrow> kktState S hf sf)" by simp
    qed
  qed
qed

lemma activeLoop_shape:
  "activeLoop h ws fs x d w = Inr (h', ws') \<Longrightarrow>
     \<exists>flags. length flags = length fs
        \<and> h' = h @ map2 (\<lambda>f b. f\<lparr>active := b\<rparr>) fs flags
        \<and> ws' = ws @ [length h ..< length h + length fs]"
proof (induction fs arbitrary: h ws)
  case Nil
  then show ?case by simp
next
  case (Cons f fs)
  from Cons.prems obtain b where
    rec: "activeLoop (h @ [f\<lparr>active := b\<rparr>]) (ws @ [length h]) fs x d w = Inr (h', ws')"
    by (auto split: if_splits sum.splits)
  from Cons.IH[OF rec] obtain flags where
    fl: "length flags = length fs"
      "h' = (h @ [f\<lparr>active := b\<rparr>]) @ map2 (\<lambda>f b. f\<lparr>active := b\<rparr>) fs flags"
      "ws' = (ws @ [length h]) @ [length (h @ [f\<lparr>active := b\<rparr>]) ..< length (h @ [f\<lparr>active := b\<rparr>]) + length fs]"
    by blast
  have "length (b # flags) = length (f # fs)
        \<and> h' = h @ map2 (\<lambda>f b. f\<lparr>active := b\<rparr>) (f # fs) (b # flags)
        \<and> ws' = ws @ [length h ..< length h + length (f # fs)]"
    using fl by (simp add: upt_shift del: upt_Suc)
  then show ?case by blast
qed

lemma identifyActiveConstraints_unflag:
  assumes "identifyActiveConstraints h ineqs x d w = Inr (h', ws)"
  shows "map unflag (factors h' ws) = map unflag ineqs"
proof -
  from activeLoop_shape[OF assms[unfolded identifyActiveConstraints_def]] obtain flags where
    fl: "length flags = length ineqs"
      "h' = h @ map2 (\<lambda>f b. f\<lparr>active := b\<rparr>) ineqs flags"
      "ws = [length h ..< length h + length ineqs]"
    by auto
  let ?gs = "map2 (\<lambda>f b. f\<lparr>active := b\<rparr>) ineqs flags"
  have len: "length ?gs = length ineqs" using fl(1) by simp
  have "factors h' ws = ?gs"
    unfolding fl(2,3) using factors_fresh[of h ?gs] len by simp
  moreover have "map unflag ?gs = map unflag ineqs"
    using fl(1) by (intro nth_equalityI) (simp_all add: unflag_def)
  ultimately show ?thesis by simp
qed

lemma leavingLoop_factors:
  "factors h ws = factors h' ws' \<Longrightarrow>
     leavingLoop h lam ws n w m = leavingLoop h' lam ws' n w m"
proof (induction ws arbitrary: ws' n w m)
  case Nil
  then show ?case by (simp add: factors_def)
next
  case (Cons a ws)
  from Cons.prems obtain a' ws'' where ws': "ws' = a' # ws''" "h ! a = h' ! a'"
    "factors h ws = factors h' ws''"
    by (cases ws') (auto simp: factors_def)
  from Cons.IH[OF ws'(3)] ws'(1,2) show ?case
    by (simp split: sum.splits list.splits)
qed

lemma vvEquals_refl: "0 \<le> tol \<Longrightarrow> vvEquals x x tol"
  by (simp add: vvEquals_def equal_with_abs_tol_def list_all2_same)

lemma restart_iterate:
  assumes kkt: "kktState S hf sf"
    and fs: "factors h2 ws2 = factors hf (workingSet sf)"
  shows "iterate S h2 \<lparr>values = values sf, duals = duals sf, workingSet = ws2, converged = False, iterations = 0\<rparr>
           = Inr (h2, \<lparr>values = values sf, duals = duals sf, workingSet = ws2, converged = True, iterations = 1\<rparr>)"
proof -
  from kkt have v: "values sf = solveWithCurrentWorkingSet S hf (workingSet sf)"
    and d: "duals sf = buildDualGraphOptimize S hf (workingSet sf) (values sf)"
    by (simp_all add: kktState_def)
  from kkt obtain l where l: "identifyLeavingConstraint hf (workingSet sf) (duals sf) = Inr l" "l < 0"
    by (auto simp: kktState_def split: sum.splits)
  have v2: "solveWithCurrentWorkingSet S h2 ws2 = values sf"
    unfolding solveWithCurrentWorkingSet_def fs using v by (simp add: solveWithCurrentWorkingSet_def)
  have d2: "buildDualGraphOptimize S h2 ws2 (values sf) = duals sf"
    unfolding buildDualGraphOptimize_def fs using d by (simp add: buildDualGraphOptimize_def)
  have l2: "identifyLeavingConstraint h2 ws2 (duals sf) = Inr l"
    unfolding identifyLeavingConstraint_def using leavingLoop_factors[OF fs] l(1)
    by (simp add: identifyLeavingConstraint_def)
  have e: "vvEquals (values sf) (values sf) tol7"
    by (rule vvEquals_refl) (simp add: tol7_def)
  show ?thesis
    using v2 d2 l2 l(2) e by (simp add: iterate_def Let_def)
qed

lemma ex3_init:
  "identifyActiveConstraints [] (inequalities (exSolver 10 1 5)) [(0, [0])] [] False
     = Inr (exStore1 1 5 False, [0])"
  by (simp add: identifyActiveConstraints_def tol7_def exStore1_def)

lemma ex3_optimizeState:
  "optimizeState (exSolver 10 1 5) [] [(0, [0])] [] False
     = Some (Inr (exStore1 1 5 True,
            \<lparr>values = [(0, [5])], duals = [(2, [- 5])], workingSet = [0], converged = True,
             iterations = 2\<rparr>))"
proof -
  have s0: "\<lparr>values = [(0, [0])], duals = [], workingSet = [0], converged = False,
             iterations = 0\<rparr> = exState 0 [0]"
    by (simp add: exState_def)
  have "optimizeLoop (exSolver 10 1 5) (exStore1 1 5 False) (exState 0 [0])
        = Some (Inr (exStore1 1 5 True,
            \<lparr>values = [(0, [5])], duals = [(2, [- 5])], workingSet = [0], converged = True,
             iterations = 2\<rparr>))"
    apply (subst optimizeLoop_step[OF _ ex1_iterate])
     apply simp
    apply (subst optimizeLoop_step[OF _ ex3_iterate2])
     apply simp
    apply (simp add: optimizeLoop_done)
    done
  then show ?thesis
    unfolding optimizeState_def ex3_init by (simp only: sum.case prod.case s0)
qed

lemma leavingLoop_empty_duals:
  "leavingLoop h [] ws n w m = Inr r \<Longrightarrow> \<forall>a\<in>set ws. \<not> active (h ! a)"
  by (induction ws arbitrary: n w m) (auto simp: vvAt_def split: if_splits)

lemma error_unflag:
  assumes "unflag f = unflag g"
  shows "error f x = error g x"
proof -
  from assms have "row f = row g" and "getb f = getb g"
    unfolding unflag_def by (cases f, cases g, simp)+
  then show ?thesis by (simp add: error_def dotProductRow_def split: sum.splits)
qed

lemma restart_factors:
  assumes u: "map unflag fs = map unflag ineqs"
    and m: "\<forall>i<length fs. flag (ineqs ! i) = active (fs ! i)"
  shows "copies flag ineqs = fs"
proof (rule nth_equalityI)
  show "length (copies flag ineqs) = length fs"
    using arg_cong[OF u, of length] by (simp add: copies_def)
next
  fix i assume "i < length (copies flag ineqs)"
  then have i: "i < length ineqs" by (simp add: copies_def)
  with arg_cong[OF u, of length] have i': "i < length fs" by simp
  from u i i' have e: "unflag (fs ! i) = unflag (ineqs ! i)"
    by (metis nth_map)
  from m i' have a: "flag (ineqs ! i) = active (fs ! i)" by simp
  from unflag_eq(1)[OF e] a
  show "copies flag ineqs ! i = fs ! i"
    using i by (simp add: copies_def)
qed

lemma restart_working_set:
  assumes kkt: "kktState S hf sf"
    and u: "map unflag (factors hf (workingSet sf)) = map unflag ineqs"
    and rebuild: "restartRebuilds hf sf"
  shows "\<exists>h2 ws2. identifyActiveConstraints h1 ineqs (values sf) (duals sf) True = Inr (h2, ws2)
           \<and> factors h2 ws2 = factors hf (workingSet sf)"
proof -
  let ?F = "factors hf (workingSet sf)"
  let ?v = "values sf" and ?d = "duals sf"
  let ?ws2 = "[length h1 ..< length h1 + length ineqs]"
  have len: "length ?F = length ineqs" using arg_cong[OF u, of length] by simp
  have un: "unflag (?F ! i) = unflag (ineqs ! i)" if "i < length ?F" for i
    using u that len by (metis nth_map)
  show ?thesis
  proof (cases "?d = []")
    case False
    from rebuild False
    have m: "list_all (\<lambda>f. vvExists ?d (dualKey f) = active f) ?F"
      by (simp add: restartRebuilds_def)
    have fl: "\<forall>i<length ?F. warmFlag ?d (ineqs ! i) = active (?F ! i)"
    proof (intro allI impI)
      fix i assume i: "i < length ?F"
      from m i have "vvExists ?d (dualKey (?F ! i)) = active (?F ! i)"
        by (simp add: list_all_length)
      with unflag_eq(2)[OF un[OF i]] show "warmFlag ?d (ineqs ! i) = active (?F ! i)"
        by (simp add: warmFlag_def)
    qed
    let ?h2 = "h1 @ copies (warmFlag ?d) ineqs"
    have init2: "identifyActiveConstraints h1 ineqs ?v ?d True = Inr (?h2, ?ws2)"
      unfolding identifyActiveConstraints_def using activeLoop_warm[OF False, of h1 "[]" ineqs ?v] by simp
    have "factors ?h2 ?ws2 = copies (warmFlag ?d) ineqs"
      using factors_fresh[of h1 "copies (warmFlag ?d) ineqs"] by (simp add: copies_def)
    also have "\<dots> = ?F" using restart_factors[OF u fl] .
    finally show ?thesis using init2 by blast
  next
    case True
    from rebuild True
    have m: "list_all (\<lambda>f. case error f ?v of Inl _ \<Rightarrow> False | Inr e \<Rightarrow> e \<le> - tol7) ?F"
      by (simp add: restartRebuilds_def)
    have err: "\<exists>e. error (ineqs ! i) ?v = Inr e \<and> e \<le> - tol7" if "i < length ?F" for i
    proof -
      from m that
      have c: "case error (?F ! i) ?v of Inl _ \<Rightarrow> False | Inr e \<Rightarrow> e \<le> - tol7"
        unfolding list_all_length by blast
      then obtain e where "error (?F ! i) ?v = Inr e" "e \<le> - tol7"
        by (cases "error (?F ! i) ?v") simp_all
      with error_unflag[OF un[OF that], of ?v] show ?thesis by metis
    qed
    have tol: "0 < tol7" by (simp add: tol7_def)
    from kkt True have "\<exists>l. leavingLoop hf [] (workingSet sf) 0 (- 1) 0 = Inr l"
      by (auto simp: kktState_def identifyLeavingConstraint_def split: sum.splits)
    then have inactive: "\<forall>a\<in>set (workingSet sf). \<not> active (hf ! a)"
      using leavingLoop_empty_duals by blast
    have fl: "\<forall>i<length ?F. coldFlag ?v (ineqs ! i) = active (?F ! i)"
    proof (intro allI impI)
      fix i assume i: "i < length ?F"
      from err[OF i] obtain e where e: "error (ineqs ! i) ?v = Inr e" "e \<le> - tol7" by blast
      then have "\<not> coldFlag ?v (ineqs ! i)"
        using tol by (simp add: error_Inr coldFlag_def)
      moreover from inactive i have "\<not> active (?F ! i)" by (simp add: factors_def)
      ultimately show "coldFlag ?v (ineqs ! i) = active (?F ! i)" by simp
    qed
    have pre: "\<forall>f\<in>set ineqs. rowOk f ?v \<and> aT f ?v - getb f \<le> 0"
    proof
      fix f assume "f \<in> set ineqs"
      then obtain i where i: "i < length ineqs" "f = ineqs ! i" by (auto simp: in_set_conv_nth)
      with err[of i] len obtain e where "error f ?v = Inr e" "e \<le> - tol7" by auto
      with tol show "rowOk f ?v \<and> aT f ?v - getb f \<le> 0" by (simp add: error_Inr)
    qed
    let ?h2 = "h1 @ copies (coldFlag ?v) ineqs"
    have init2: "identifyActiveConstraints h1 ineqs ?v ?d True = Inr (?h2, ?ws2)"
      unfolding identifyActiveConstraints_def True activeLoop_empty_duals[of _ _ _ _ "[]"]
      using activeLoop_cold[OF pre, of h1 "[]" "[]"] by simp
    have "factors ?h2 ?ws2 = copies (coldFlag ?v) ineqs"
      using factors_fresh[of h1 "copies (coldFlag ?v) ineqs"] by (simp add: copies_def)
    also have "\<dots> = ?F" using restart_factors[OF u fl] .
    finally show ?thesis using init2 by blast
  qed
qed

text \<open>
  Claim C3, as amended. Let a call of \<^verbatim>\<open>optimize\<close> converge, with final store and state
  \<open>(hf, sf)\<close>, and let a restart from the converged values and duals rebuild the final active
  set: either the converged duals are not empty and hold an entry exactly at the dual keys
  of the constraints that are active in the final working set, or they are empty and every
  inequality's violation at the converged values is at most \<open>- 10\<^sup>-\<^sup>7\<close>. Then a second call,
  from the converged values and duals with warm start, converges in its first iteration and
  returns the same values and duals.
\<close>

theorem optimize_warm_restart_idempotent:
  assumes run: "optimizeState S h0 x0 d0 w = Some (Inr (hf, sf))"
    and rebuild: "restartRebuilds hf sf"
  shows "optimize S h0 x0 d0 w = Some (Inr (values sf, duals sf))
     \<and> optimize S h1 (values sf) (duals sf) True = Some (Inr (values sf, duals sf))
     \<and> (\<exists>h' s'. optimizeState S h1 (values sf) (duals sf) True = Some (Inr (h', s'))
           \<and> converged s' \<and> iterations s' = 1
           \<and> factors h' (workingSet s') = factors hf (workingSet sf))"
proof -
  let ?I = "inequalities S"
  let ?v = "values sf" and ?d = "duals sf"
  from run obtain ha wsa where
    init: "identifyActiveConstraints h0 ?I x0 d0 w = Inr (ha, wsa)"
    and loop: "optimizeLoop S ha \<lparr>values = x0, duals = d0, workingSet = wsa, converged = False,
                 iterations = 0\<rparr> = Some (Inr (hf, sf))"
    by (auto simp: optimizeState_def split: sum.splits)
  from optimizeLoop_final[OF loop] have
    u: "map unflag (factors hf (workingSet sf)) = map unflag (factors ha wsa)"
    and kkt: "kktState S hf sf"
    by simp_all
  from u identifyActiveConstraints_unflag[OF init]
  have u': "map unflag (factors hf (workingSet sf)) = map unflag ?I" by simp
  from restart_working_set[OF kkt u' rebuild, of h1] obtain h2 ws2 where
    init2: "identifyActiveConstraints h1 ?I ?v ?d True = Inr (h2, ws2)"
    and fs: "factors h2 ws2 = factors hf (workingSet sf)" by blast
  let ?s2 = "\<lparr>values = ?v, duals = ?d, workingSet = ws2, converged = False, iterations = 0\<rparr>"
  let ?s2' = "\<lparr>values = ?v, duals = ?d, workingSet = ws2, converged = True, iterations = 1\<rparr>"
  have it: "iterate S h2 ?s2 = Inr (h2, ?s2')"
    using restart_iterate[OF kkt fs] .
  have "optimizeLoop S h2 ?s2 = optimizeLoop S h2 ?s2'"
    by (rule optimizeLoop_step[OF _ it]) simp
  also have "\<dots> = Some (Inr (h2, ?s2'))"
    by (rule optimizeLoop_done) simp
  finally have loop2: "optimizeLoop S h2 ?s2 = Some (Inr (h2, ?s2'))" .
  have st2: "optimizeState S h1 ?v ?d True = Some (Inr (h2, ?s2'))"
    unfolding optimizeState_def init2 using loop2 by simp
  have a: "optimize S h0 x0 d0 w = Some (Inr (?v, ?d))"
    unfolding optimize_def run by simp
  have b: "optimize S h1 ?v ?d True = Some (Inr (?v, ?d))"
    unfolding optimize_def st2 by simp
  have c: "\<exists>h' s'. optimizeState S h1 ?v ?d True = Some (Inr (h', s'))
           \<and> converged s' \<and> iterations s' = 1
           \<and> factors h' (workingSet s') = factors hf (workingSet sf)"
    using st2 fs by (intro exI[of _ h2] exI[of _ ?s2']) simp
  from a b c show ?thesis by blast
qed

lemma ex3b_iterate1:
  "iterate (exSolver 3 1 5) (exStore1 1 5 False) (exState 0 [0])
     = Inr (exStore1 1 5 False,
            \<lparr>values = [(0, [3])], duals = [], workingSet = [0], converged = False, iterations = 1\<rparr>)"
  by (simp add: iterate_def Let_def tol7_def wsAt_def solveWithCurrentWorkingSet_def
      vvMinus_def vvPlus_def vvCombine_def vvScale_def computeStepSize_def toInt_def)

lemma ex3b_iterate2:
  "iterate (exSolver 3 1 5) (exStore1 1 5 False)
      \<lparr>values = [(0, [3])], duals = [], workingSet = [0], converged = False, iterations = 1\<rparr>
     = Inr (exStore1 1 5 False,
            \<lparr>values = [(0, [3])], duals = [], workingSet = [0], converged = True, iterations = 2\<rparr>)"
  by (simp add: iterate_def Let_def tol7_def solveWithCurrentWorkingSet_def
      buildDualGraphOptimize_def identifyLeavingConstraint_def vvAt_def)

lemma ex3b_init:
  "identifyActiveConstraints [] (inequalities (exSolver 3 1 5)) [(0, [0])] [] False
     = Inr (exStore1 1 5 False, [0])"
  by (simp add: identifyActiveConstraints_def tol7_def exStore1_def)

lemma ex3b_optimizeState:
  "optimizeState (exSolver 3 1 5) [] [(0, [0])] [] False
     = Some (Inr (exStore1 1 5 False,
            \<lparr>values = [(0, [3])], duals = [], workingSet = [0], converged = True, iterations = 2\<rparr>))"
proof -
  have s0: "\<lparr>values = [(0, [0])], duals = [], workingSet = [0], converged = False,
             iterations = 0\<rparr> = exState 0 [0]"
    by (simp add: exState_def)
  have "optimizeLoop (exSolver 3 1 5) (exStore1 1 5 False) (exState 0 [0])
        = Some (Inr (exStore1 1 5 False,
            \<lparr>values = [(0, [3])], duals = [], workingSet = [0], converged = True, iterations = 2\<rparr>))"
    apply (subst optimizeLoop_step[OF _ ex3b_iterate1])
     apply simp
    apply (subst optimizeLoop_step[OF _ ex3b_iterate2])
     apply simp
    apply (simp add: optimizeLoop_done)
    done
  then show ?thesis
    unfolding optimizeState_def ex3b_init by (simp only: sum.case prod.case s0)
qed

theorem optimize_warm_restart_idempotent_witness:
  "optimizeState (exSolver 10 1 5) [] [(0, [0])] [] False
     = Some (Inr (exStore1 1 5 True,
            \<lparr>values = [(0, [5])], duals = [(2, [- 5])], workingSet = [0], converged = True,
             iterations = 2\<rparr>))
   \<and> restartRebuilds (exStore1 1 5 True)
        \<lparr>values = [(0, [5])], duals = [(2, [- 5])], workingSet = [0], converged = True,
         iterations = 2\<rparr>
   \<and> optimize (exSolver 10 1 5) [] [(0, [0])] [] False = Some (Inr ([(0, [5])], [(2, [- 5])]))
   \<and> optimize (exSolver 10 1 5) [] [(0, [5])] [(2, [- 5])] True = Some (Inr ([(0, [5])], [(2, [- 5])]))
   \<and> optimizeState (exSolver 3 1 5) [] [(0, [0])] [] False
     = Some (Inr (exStore1 1 5 False,
            \<lparr>values = [(0, [3])], duals = [], workingSet = [0], converged = True, iterations = 2\<rparr>))
   \<and> restartRebuilds (exStore1 1 5 False)
        \<lparr>values = [(0, [3])], duals = [], workingSet = [0], converged = True, iterations = 2\<rparr>
   \<and> optimize (exSolver 3 1 5) [] [(0, [0])] [] False = Some (Inr ([(0, [3])], []))
   \<and> optimize (exSolver 3 1 5) [] [(0, [3])] [] True = Some (Inr ([(0, [3])], []))"
proof -
  let ?sf = "\<lparr>values = [(0, [5])], duals = [(2, [- 5])], workingSet = [0], converged = True,
             iterations = 2\<rparr>"
  let ?sg = "\<lparr>values = [(0, [3])], duals = [], workingSet = [0], converged = True, iterations = 2\<rparr>"
  have m: "restartRebuilds (exStore1 1 5 True) ?sf"
    by (simp add: restartRebuilds_def vvExists_def)
  have n: "restartRebuilds (exStore1 1 5 False) ?sg"
    by (simp add: restartRebuilds_def tol7_def)
  from optimize_warm_restart_idempotent[OF ex3_optimizeState m, of "[]"]
  have a: "optimize (exSolver 10 1 5) [] [(0, [0])] [] False = Some (Inr ([(0, [5])], [(2, [- 5])]))"
    "optimize (exSolver 10 1 5) [] [(0, [5])] [(2, [- 5])] True = Some (Inr ([(0, [5])], [(2, [- 5])]))"
    by simp_all
  from optimize_warm_restart_idempotent[OF ex3b_optimizeState n, of "[]"]
  have b: "optimize (exSolver 3 1 5) [] [(0, [0])] [] False = Some (Inr ([(0, [3])], []))"
    "optimize (exSolver 3 1 5) [] [(0, [3])] [] True = Some (Inr ([(0, [3])], []))"
    by simp_all
  from ex3_optimizeState ex3b_optimizeState m n a b show ?thesis by simp
qed

text \<open>
  The claim as stated fails when the converged duals are empty and a violation at the
  converged values exceeds \<open>- 10\<^sup>-\<^sup>7\<close>. Minimise \<open>(x - c)\<^sup>2 / 2\<close> with
  \<open>c = 5 + 5\<cdot>10\<^sup>-\<^sup>8\<close> subject to \<open>1000 x \<le> 5000\<close>, from \<open>x = 5 - 10\<^sup>-\<^sup>9\<close>: the first call
  converges to the values \<open>c\<close> with empty duals; the second call, warm start requested, finds
  no duals, evaluates the violation \<open>5\<cdot>10\<^sup>-\<^sup>5 > 0\<close> at \<open>c\<close> and raises \<^verbatim>\<open>InfeasibleInitialValues\<close>.
\<close>

theorem optimize_idempotent_counterexample:
  "optimize (exSolver (5 + 5 / 10 ^ 8) 1000 5000) [] [(0, [5 - 1 / 10 ^ 9])] [] False
       = Some (Inr ([(0, [5 + 5 / 10 ^ 8])], []))
   \<and> optimize (exSolver (5 + 5 / 10 ^ 8) 1000 5000) [] [(0, [5 + 5 / 10 ^ 8])] [] True
       = Some (Inl InfeasibleInitialValues)"
proof -
  have a: "optimize (exSolver (5 + 5 / 10 ^ 8) 1000 5000) [] [(0, [5 - 1 / 10 ^ 9])] [] False
       = Some (Inr ([(0, [5 + 5 / 10 ^ 8])], []))"
    unfolding optimize_def exc_optimizeState by simp
  have b: "optimize (exSolver (5 + 5 / 10 ^ 8) 1000 5000) [] [(0, [5 + 5 / 10 ^ 8])] [] True
       = Some (Inl InfeasibleInitialValues)"
    by (simp add: optimize_def optimizeState_def identifyActiveConstraints_def vvExists_def vvSize_def)
  from a b show ?thesis by blast
qed

end
